theory Spec2Isabelle
  imports Complex_Main "HOL-Library.Word"
begin

section \<open>Strings of the program\<close>

text \<open>
  A string of the program is a sequence of UTF-16 code units: \<open>length\<close>, \<open>trim\<close>,
  \<open>substring\<close> and a regular expression without the \<open>u\<close> flag all work on code units.
\<close>

type_synonym code_unit = "16 word"
type_synonym jsstring = "code_unit list"

definition lit :: "string \<Rightarrow> jsstring" where
  "lit cs = map of_char cs"

text \<open>
  White space as \<open>String.prototype.trim\<close> and the regular-expression class \<open>\s\<close> know it:
  tab, line feed, vertical tab, form feed, carriage return, space, no-break space, the
  space separators, the line and paragraph separators and the byte order mark.
\<close>

definition isWhitespace :: "code_unit \<Rightarrow> bool" where
  "isWhitespace c \<longleftrightarrow>
     c = 0x09 \<or> c = 0x0A \<or> c = 0x0B \<or> c = 0x0C \<or> c = 0x0D \<or> c = 0x20 \<or> c = 0xA0 \<or>
     c = 0x1680 \<or> (0x2000 \<le> c \<and> c \<le> 0x200A) \<or> c = 0x2028 \<or> c = 0x2029 \<or>
     c = 0x202F \<or> c = 0x205F \<or> c = 0x3000 \<or> c = 0xFEFF"

definition trim :: "jsstring \<Rightarrow> jsstring" where
  "trim s = rev (dropWhile isWhitespace (rev (dropWhile isWhitespace s)))"

text \<open>\<open>s.substring(a, b)\<close> for indices that are natural numbers.\<close>

definition substring :: "jsstring \<Rightarrow> nat \<Rightarrow> nat \<Rightarrow> jsstring" where
  "substring s a b =
     (let a' = min a (length s); b' = min b (length s)
      in drop (min a' b') (take (max a' b') s))"

section \<open>The chunker\<close>

definition MAX_TEXT_LENGTH :: nat where
  "MAX_TEXT_LENGTH = 4500"

text \<open>
  The class of the sentence pattern: full stop, exclamation mark, question mark and the
  Arabic question mark U+061F. Below, \<open>T\<close> stands for these four inside a pattern.
\<close>

definition isTerminator :: "code_unit \<Rightarrow> bool" where
  "isTerminator c \<longleftrightarrow> c = 0x2E \<or> c = 0x21 \<or> c = 0x3F \<or> c = 0x061F"

definition isTail :: "code_unit \<Rightarrow> bool" where
  "isTail c \<longleftrightarrow> isTerminator c \<or> isWhitespace c"

text \<open>
  \<open>trimmedText.match(/[^T]+[T\s]*|[^T]+$/g) || []\<close>, the successive matches from
  left to right. At a position holding a terminator neither alternative matches and the
  search moves on by one code unit. At any other position the first alternative matches:
  the greedy \<open>[^T]+\<close> takes the longest run of non-terminators, the greedy
  \<open>[T\s]*\<close> the longest run of terminators and white space after it, and the next
  search starts where the match ended. The second alternative is never reached, since the
  first one matches wherever the second one would.
\<close>

function matchSentences :: "jsstring \<Rightarrow> jsstring list" where
  "matchSentences [] = []"
| "matchSentences (c # cs) =
     (if isTerminator c then matchSentences cs
      else (takeWhile (\<lambda>x. \<not> isTerminator x) (c # cs) @
            takeWhile isTail (dropWhile (\<lambda>x. \<not> isTerminator x) (c # cs)))
           # matchSentences (dropWhile isTail (dropWhile (\<lambda>x. \<not> isTerminator x) (c # cs))))"
  by pat_completeness auto
termination
proof (relation "measure length")
  show "wf (measure length)" by simp
next
  fix c :: code_unit and cs :: jsstring
  assume "isTerminator c"
  then show "(cs, c # cs) \<in> measure length" by simp
next
  fix c :: code_unit and cs :: jsstring
  assume "\<not> isTerminator c"
  then have "length (dropWhile isTail (dropWhile (\<lambda>x. \<not> isTerminator x) (c # cs)))
      \<le> length cs"
    using length_dropWhile_le [of isTail "dropWhile (\<lambda>x. \<not> isTerminator x) cs"]
      length_dropWhile_le [of "\<lambda>x. \<not> isTerminator x" cs]
    by simp
  then show "(dropWhile isTail (dropWhile (\<lambda>x. \<not> isTerminator x) (c # cs)), c # cs)
      \<in> measure length"
    by simp
qed

text \<open>
  The inner \<open>for\<close> loop of the forced split, from index \<open>i\<close> on:
  \<open>for (let i = 0; i < s.length; i += MAX_TEXT_LENGTH) chunks.push(s.substring(i, i + MAX_TEXT_LENGTH))\<close>.
\<close>

function forceSplit :: "jsstring \<Rightarrow> nat \<Rightarrow> jsstring list" where
  "forceSplit s i =
     (if i < length s
      then substring s i (i + MAX_TEXT_LENGTH) # forceSplit s (i + MAX_TEXT_LENGTH)
      else [])"
  by pat_completeness auto
termination
  by (relation "measure (\<lambda>(s, i). length s - i)") (auto simp: MAX_TEXT_LENGTH_def)

declare forceSplit.simps [simp del]

text \<open>\<open>if (currentChunk.trim()) chunks.push(currentChunk.trim())\<close>.\<close>

definition flush :: "jsstring list \<Rightarrow> jsstring \<Rightarrow> jsstring list" where
  "flush chunks currentChunk =
     (if trim currentChunk \<noteq> [] then chunks @ [trim currentChunk] else chunks)"

text \<open>The body of the loop over the sentences, on the pair \<open>(chunks, currentChunk)\<close>.\<close>

definition processSentence :: "jsstring list \<times> jsstring \<Rightarrow> jsstring \<Rightarrow> jsstring list \<times> jsstring" where
  "processSentence st sentence =
     (let chunks = fst st; currentChunk = snd st; trimmedSentence = trim sentence
      in if trimmedSentence = [] then (chunks, currentChunk)
         else if length trimmedSentence > MAX_TEXT_LENGTH
           then (flush chunks currentChunk @ forceSplit trimmedSentence 0, [])
         else if length currentChunk + length trimmedSentence + 1 > MAX_TEXT_LENGTH
           then (flush chunks currentChunk, trimmedSentence @ [0x20])
         else (chunks, currentChunk @ trimmedSentence @ [0x20]))"

definition chunkText :: "jsstring \<Rightarrow> jsstring list" where
  "chunkText text =
     (let trimmedText = trim text
      in if trimmedText = [] then []
         else if length trimmedText \<le> MAX_TEXT_LENGTH then [trimmedText]
         else (let st = foldl processSentence ([], []) (matchSentences trimmedText)
               in flush (fst st) (snd st)))"

section \<open>The sanitizer\<close>

text \<open>
  The pattern of \<open>sanitizeText\<close> carries the \<open>u\<close> flag, so it reads the string code
  point by code point: a high surrogate followed by a low surrogate is one code point,
  any other code unit, an unpaired surrogate too, is a code point of its own.
\<close>

definition isHighSurrogate :: "code_unit \<Rightarrow> bool" where
  "isHighSurrogate c \<longleftrightarrow> 0xD800 \<le> c \<and> c \<le> 0xDBFF"

definition isLowSurrogate :: "code_unit \<Rightarrow> bool" where
  "isLowSurrogate c \<longleftrightarrow> 0xDC00 \<le> c \<and> c \<le> 0xDFFF"

definition codePointOfPair :: "code_unit \<Rightarrow> code_unit \<Rightarrow> nat" where
  "codePointOfPair h l = 0x10000 + (unat h - 0xD800) * 0x400 + (unat l - 0xDC00)"

fun codePoints :: "jsstring \<Rightarrow> nat list" where
  "codePoints [] = []"
| "codePoints [c] = [unat c]"
| "codePoints (c # d # r) =
     (if isHighSurrogate c \<and> isLowSurrogate d
      then codePointOfPair c d # codePoints r
      else unat c # codePoints (d # r))"

text \<open>A string is well formed when it has no unpaired surrogate.\<close>

fun wellFormed :: "jsstring \<Rightarrow> bool" where
  "wellFormed [] = True"
| "wellFormed [c] = (\<not> isHighSurrogate c \<and> \<not> isLowSurrogate c)"
| "wellFormed (c # d # r) =
     (if isHighSurrogate c then isLowSurrogate d \<and> wellFormed r
      else \<not> isLowSurrogate c \<and> wellFormed (d # r))"

text \<open>
  The class \<open>[\p{Cf}\u0000-\u0008\u000B\u000C\u000E-\u001F\u007F-\u009F]\<close> of the pattern.
  What \<open>\p{Cf}\<close> holds is a table of the engine, not of the repository: it is the
  parameter \<open>cf\<close>.
\<close>

definition removedClass :: "(nat \<Rightarrow> bool) \<Rightarrow> nat \<Rightarrow> bool" where
  "removedClass cf cp \<longleftrightarrow>
     cf cp \<or> cp \<le> 0x08 \<or> cp = 0x0B \<or> cp = 0x0C \<or> (0x0E \<le> cp \<and> cp \<le> 0x1F) \<or>
     (0x7F \<le> cp \<and> cp \<le> 0x9F)"

text \<open>\<open>text.replace(/[...]/gu, "")\<close>: every match of the class is deleted.\<close>

fun sanitizeText :: "(nat \<Rightarrow> bool) \<Rightarrow> jsstring \<Rightarrow> jsstring" where
  "sanitizeText cf [] = []"
| "sanitizeText cf [c] = (if removedClass cf (unat c) then [] else [c])"
| "sanitizeText cf (c # d # r) =
     (if isHighSurrogate c \<and> isLowSurrogate d
      then (if removedClass cf (codePointOfPair c d) then sanitizeText cf r
            else c # d # sanitizeText cf r)
      else (if removedClass cf (unat c) then sanitizeText cf (d # r)
            else c # sanitizeText cf (d # r)))"

text \<open>
  The format category (Cf) of the Unicode Character Database, version 15.1: one table
  that \<open>\p{Cf}\<close> can stand for, used where a concrete table is needed.
\<close>

definition unicodeCf :: "nat \<Rightarrow> bool" where
  "unicodeCf cp \<longleftrightarrow>
     cp = 0xAD \<or> (0x600 \<le> cp \<and> cp \<le> 0x605) \<or> cp = 0x61C \<or> cp = 0x6DD \<or> cp = 0x70F \<or>
     (0x890 \<le> cp \<and> cp \<le> 0x891) \<or> cp = 0x8E2 \<or> cp = 0x180E \<or>
     (0x200B \<le> cp \<and> cp \<le> 0x200F) \<or> (0x202A \<le> cp \<and> cp \<le> 0x202E) \<or>
     (0x2060 \<le> cp \<and> cp \<le> 0x2064) \<or> (0x2066 \<le> cp \<and> cp \<le> 0x206F) \<or>
     cp = 0xFEFF \<or> (0xFFF9 \<le> cp \<and> cp \<le> 0xFFFB) \<or> cp = 0x110BD \<or> cp = 0x110CD \<or>
     (0x13430 \<le> cp \<and> cp \<le> 0x1343F) \<or> (0x1BCA0 \<le> cp \<and> cp \<le> 0x1BCA3) \<or>
     (0x1D173 \<le> cp \<and> cp \<le> 0x1D17A) \<or> cp = 0xE0001 \<or>
     (0xE0020 \<le> cp \<and> cp \<le> 0xE007F)"

text \<open>
  The words of the specification: the control category (Cc) is the C0 and C1 controls,
  and a code point is to be stripped when it is a control or a format code point other
  than tab, line feed and carriage return.
\<close>

definition isControl :: "nat \<Rightarrow> bool" where
  "isControl cp \<longleftrightarrow> cp \<le> 0x1F \<or> (0x7F \<le> cp \<and> cp \<le> 0x9F)"

definition shouldStrip :: "(nat \<Rightarrow> bool) \<Rightarrow> nat \<Rightarrow> bool" where
  "shouldStrip cf cp \<longleftrightarrow> (isControl cp \<or> cf cp) \<and> cp \<noteq> 0x09 \<and> cp \<noteq> 0x0A \<and> cp \<noteq> 0x0D"

section \<open>The synthesis client\<close>

text \<open>
  What a \<open>catch\<close> clause receives: an \<open>Error\<close> object with its message, or any other
  value.
\<close>

datatype thrown = ErrorObj jsstring | OtherValue

text \<open>\<open>s.includes(needle)\<close>: the needle occurs at some index of \<open>s\<close>.\<close>

fun includesStr :: "jsstring \<Rightarrow> jsstring \<Rightarrow> bool" where
  "includesStr [] needle = (needle = [])"
| "includesStr (c # cs) needle =
     (take (length needle) (c # cs) = needle \<or> includesStr cs needle)"

text \<open>
  The messages of \<open>handleApiError\<close>, in the order of the source. They are Persian
  sentences, given here by their code units with an English gloss.
\<close>

text \<open>An unknown error occurred while talking to the service (the initial value of message).\<close>

definition msgUnknown :: jsstring where
  "msgUnknown =
    [0x06CC, 0x06A9, 0x0020, 0x062E, 0x0637, 0x0627, 0x06CC, 0x0020, 0x0646, 0x0627,
     0x0634, 0x0646, 0x0627, 0x062E, 0x062A, 0x0647, 0x0020, 0x062F, 0x0631, 0x0020,
     0x0647, 0x0646, 0x06AF, 0x0627, 0x0645, 0x0020, 0x0627, 0x0631, 0x062A, 0x0628,
     0x0627, 0x0637, 0x0020, 0x0628, 0x0627, 0x0020, 0x0633, 0x0631, 0x0648, 0x06CC,
     0x0633, 0x0020, 0x0631, 0x062E, 0x0020, 0x062F, 0x0627, 0x062F, 0x002E]"

text \<open>The API key is not valid or lacks permission.\<close>

definition msgInvalidKey :: jsstring where
  "msgInvalidKey =
    [0x06A9, 0x0644, 0x06CC, 0x062F, 0x0020, 0x0041, 0x0050, 0x0049, 0x0020, 0x0646,
     0x0627, 0x0645, 0x0639, 0x062A, 0x0628, 0x0631, 0x0020, 0x0627, 0x0633, 0x062A,
     0x0020, 0x06CC, 0x0627, 0x0020, 0x0645, 0x062C, 0x0648, 0x0632, 0x0020, 0x06A9,
     0x0627, 0x0641, 0x06CC, 0x0020, 0x0646, 0x062F, 0x0627, 0x0631, 0x062F, 0x002E,
     0x0020, 0x0644, 0x0637, 0x0641, 0x0627, 0x064B, 0x0020, 0x062A, 0x0646, 0x0638,
     0x06CC, 0x0645, 0x0627, 0x062A, 0x0020, 0x062E, 0x0648, 0x062F, 0x0020, 0x0631,
     0x0627, 0x0020, 0x0628, 0x0631, 0x0631, 0x0633, 0x06CC, 0x0020, 0x06A9, 0x0646,
     0x06CC, 0x062F, 0x002E]"

text \<open>Too many requests.\<close>

definition msgRateLimit :: jsstring where
  "msgRateLimit =
    [0x062A, 0x0639, 0x062F, 0x0627, 0x062F, 0x0020, 0x062F, 0x0631, 0x062E, 0x0648,
     0x0627, 0x0633, 0x062A, 0x200C, 0x0647, 0x0627, 0x0020, 0x0628, 0x06CC, 0x0634,
     0x0020, 0x0627, 0x0632, 0x0020, 0x062D, 0x062F, 0x0020, 0x0645, 0x062C, 0x0627,
     0x0632, 0x0020, 0x0627, 0x0633, 0x062A, 0x002E, 0x0020, 0x0644, 0x0637, 0x0641,
     0x0627, 0x064B, 0x0020, 0x06A9, 0x0645, 0x06CC, 0x0020, 0x0635, 0x0628, 0x0631,
     0x0020, 0x06A9, 0x0631, 0x062F, 0x0647, 0x0020, 0x0648, 0x0020, 0x062F, 0x0648,
     0x0628, 0x0627, 0x0631, 0x0647, 0x0020, 0x0627, 0x0645, 0x062A, 0x062D, 0x0627,
     0x0646, 0x0020, 0x06A9, 0x0646, 0x06CC, 0x062F, 0x002E]"

text \<open>The service is unavailable or met an internal error.\<close>

definition msgUnavailable :: jsstring where
  "msgUnavailable =
    [0x0633, 0x0631, 0x0648, 0x06CC, 0x0633, 0x0020, 0x062F, 0x0631, 0x0020, 0x062D,
     0x0627, 0x0644, 0x0020, 0x062D, 0x0627, 0x0636, 0x0631, 0x0020, 0x062F, 0x0631,
     0x0020, 0x062F, 0x0633, 0x062A, 0x0631, 0x0633, 0x0020, 0x0646, 0x06CC, 0x0633,
     0x062A, 0x0020, 0x06CC, 0x0627, 0x0020, 0x0628, 0x0627, 0x0020, 0x062E, 0x0637,
     0x0627, 0x06CC, 0x0020, 0x062F, 0x0627, 0x062E, 0x0644, 0x06CC, 0x0020, 0x0645,
     0x0648, 0x0627, 0x062C, 0x0647, 0x0020, 0x0634, 0x062F, 0x0647, 0x0020, 0x0627,
     0x0633, 0x062A, 0x002E, 0x0020, 0x0644, 0x0637, 0x0641, 0x0627, 0x064B, 0x0020,
     0x0628, 0x0639, 0x062F, 0x0627, 0x064B, 0x0020, 0x062F, 0x0648, 0x0628, 0x0627,
     0x0631, 0x0647, 0x0020, 0x062A, 0x0644, 0x0627, 0x0634, 0x0020, 0x06A9, 0x0646,
     0x06CC, 0x062F, 0x002E]"

text \<open>The request was not valid.\<close>

definition msgBadRequest :: jsstring where
  "msgBadRequest =
    [0x062F, 0x0631, 0x062E, 0x0648, 0x0627, 0x0633, 0x062A, 0x0020, 0x0646, 0x0627,
     0x0645, 0x0639, 0x062A, 0x0628, 0x0631, 0x0020, 0x0628, 0x0648, 0x062F, 0x002E,
     0x0020, 0x0644, 0x0637, 0x0641, 0x0627, 0x064B, 0x0020, 0x0627, 0x0632, 0x0020,
     0x0635, 0x062D, 0x062A, 0x0020, 0x0645, 0x062A, 0x0646, 0x0020, 0x0648, 0x0631,
     0x0648, 0x062F, 0x06CC, 0x0020, 0x062E, 0x0648, 0x062F, 0x0020, 0x0627, 0x0637,
     0x0645, 0x06CC, 0x0646, 0x0627, 0x0646, 0x0020, 0x062D, 0x0627, 0x0635, 0x0644,
     0x0020, 0x06A9, 0x0646, 0x06CC, 0x062F, 0x002E]"

text \<open>An unexpected error occurred.\<close>

definition msgUnexpected :: jsstring where
  "msgUnexpected =
    [0x06CC, 0x06A9, 0x0020, 0x062E, 0x0637, 0x0627, 0x06CC, 0x0020, 0x063A, 0x06CC,
     0x0631, 0x0645, 0x0646, 0x062A, 0x0638, 0x0631, 0x0647, 0x0020, 0x0631, 0x062E,
     0x0020, 0x062F, 0x0627, 0x062F, 0x002E, 0x0020, 0x0644, 0x0637, 0x0641, 0x0627,
     0x064B, 0x0020, 0x062F, 0x0648, 0x0628, 0x0627, 0x0631, 0x0647, 0x0020, 0x062A,
     0x0644, 0x0627, 0x0634, 0x0020, 0x06A9, 0x0646, 0x06CC, 0x062F, 0x002E]"

text \<open>The message of \<open>speak\<close> for a caught value that is not an \<open>Error\<close>.\<close>

definition msgSpeakUnknown :: jsstring where
  "msgSpeakUnknown =
    [0x06CC, 0x06A9, 0x0020, 0x062E, 0x0637, 0x0627, 0x06CC, 0x0020, 0x0646, 0x0627,
     0x0634, 0x0646, 0x0627, 0x062E, 0x062A, 0x0647, 0x0020, 0x0631, 0x062E, 0x0020,
     0x062F, 0x0627, 0x062F, 0x002E]"

text \<open>
  \<open>handleApiError(error)\<close>. The lower-casing of the message follows the case tables of
  the engine, which are not in the repository: \<open>toLowerCase\<close> is a parameter.
\<close>

definition handleApiError :: "(jsstring \<Rightarrow> jsstring) \<Rightarrow> thrown \<Rightarrow> thrown" where
  "handleApiError toLowerCase error =
     ErrorObj
       (case error of
          OtherValue \<Rightarrow> msgUnknown
        | ErrorObj m \<Rightarrow>
            (let errorMessage = toLowerCase m
             in if includesStr errorMessage (lit ''api key not valid'') \<or>
                   includesStr errorMessage (lit ''permission denied'')
                then msgInvalidKey
                else if includesStr errorMessage (lit ''rate limit'')
                then msgRateLimit
                else if includesStr errorMessage (lit ''500'') \<or>
                        includesStr errorMessage (lit ''503'') \<or>
                        includesStr errorMessage (lit ''server error'') \<or>
                        includesStr errorMessage (lit ''rpc failed'')
                then msgUnavailable
                else if includesStr errorMessage (lit ''400'') \<or>
                        includesStr errorMessage (lit ''invalid'')
                then msgBadRequest
                else msgUnexpected))"

text \<open>
  What surrounds the program: the credential \<open>process.env.API_KEY\<close>; the remote model,
  which for the request number \<open>n\<close> (counted from 0) with a given text either throws or
  answers with the audio payload \<open>response.candidates?.[0]?.content?.parts?.[0]?.inlineData?.data\<close>,
  possibly undefined; the tables of the engine (format category, lower-casing); and the
  decoder of \<open>utils/audio\<close>, \<open>decodeAudioData(decode(chunk), ...)\<close>, which either throws or
  gives a buffer.
\<close>

record 'b env =
  API_KEY :: "jsstring option"
  generateContent :: "nat \<Rightarrow> jsstring \<Rightarrow> thrown + jsstring option"
  formatCategory :: "nat \<Rightarrow> bool"
  toLowerCase :: "jsstring \<Rightarrow> jsstring"
  decodeAudio :: "jsstring \<Rightarrow> thrown + 'b"

text \<open>
  The loop of \<open>generateSpeech\<close> over the chunks, with the payloads collected so far and
  the texts sent to the remote model so far. The result is what the loop throws or the
  payloads, together with all the texts sent.
\<close>

fun synthesizeChunks ::
  "'b env \<Rightarrow> jsstring list \<Rightarrow> jsstring list \<Rightarrow> jsstring list \<Rightarrow> (thrown + jsstring list) \<times> jsstring list"
where
  "synthesizeChunks e [] audioChunks sent = (Inr audioChunks, sent)"
| "synthesizeChunks e (chunk # rest) audioChunks sent =
     (let sanitizedChunk = trim (sanitizeText (formatCategory e) chunk)
      in if sanitizedChunk = [] then synthesizeChunks e rest audioChunks sent
         else (case generateContent e (length sent) sanitizedChunk of
                 Inl err \<Rightarrow> (Inl err, sent @ [sanitizedChunk])
               | Inr base64Audio \<Rightarrow>
                   (if base64Audio = None \<or> base64Audio = Some []
                    then synthesizeChunks e rest audioChunks (sent @ [sanitizedChunk])
                    else synthesizeChunks e rest (audioChunks @ [the base64Audio])
                           (sent @ [sanitizedChunk]))))"

text \<open>
  \<open>generateSpeech(text)\<close>: \<open>Inl\<close> is the rejection of the promise, \<open>Inr\<close> its value; the
  second component lists the texts sent to the remote model.
\<close>

definition generateSpeech :: "'b env \<Rightarrow> jsstring \<Rightarrow> (thrown + jsstring list) \<times> jsstring list" where
  "generateSpeech e text =
     (if API_KEY e = None \<or> API_KEY e = Some []
      then (Inl (handleApiError (toLowerCase e)
                   (ErrorObj (lit ''API_KEY environment variable not set''))), [])
      else (let textChunks = chunkText text
            in if textChunks = [] then (Inr [], [])
               else (case synthesizeChunks e textChunks [] [] of
                       (Inl err, sent) \<Rightarrow> (Inl (handleApiError (toLowerCase e) err), sent)
                     | (Inr audioChunks, sent) \<Rightarrow> (Inr audioChunks, sent))))"

section \<open>The playback hook\<close>

text \<open>
  An \<open>onEnd\<close> callback is known by a number; calling it is recorded in \<open>onEndCalls\<close>.
\<close>

type_synonym callback = nat

record options =
  onEnd :: "callback option"
  playbackRate :: "real option"

text \<open>
  A source node created by \<open>createBufferSource\<close> and started: its buffer, its rate, the
  \<open>onEnd\<close> that its \<open>onended\<close> handler holds, and whether \<open>stop()\<close> was called on it.
\<close>

record 'b source_node =
  node_id :: nat
  node_buffer :: 'b
  node_rate :: real
  node_onEnd :: "callback option"
  node_stopped :: bool

text \<open>
  The state of the hook: the three React states, the five references, and the audio
  context's side: the nodes that were started and whose \<open>ended\<close> event is still to come
  (\<open>liveNodes\<close>), the buffers started so far (\<open>startedBuffers\<close>) and the \<open>onEnd\<close> calls made
  so far. \<open>sourceNodeRef\<close> holds the identity of a node, \<open>audioContextRef\<close> whether the
  context exists.
\<close>

record 'b tts =
  isLoading :: bool
  isPlaying :: bool
  error :: "jsstring option"
  audioContextRef :: bool
  sourceNodeRef :: "nat option"
  audioQueueRef :: "'b list"
  isStoppingRef :: bool
  playbackRateRef :: real
  liveNodes :: "'b source_node list"
  nextNodeId :: nat
  startedBuffers :: "'b list"
  onEndCalls :: "callback list"

definition initial :: "'b tts" where
  "initial = \<lparr> isLoading = False, isPlaying = False, error = None, audioContextRef = False,
     sourceNodeRef = None, audioQueueRef = [], isStoppingRef = False, playbackRateRef = 1,
     liveNodes = [], nextNodeId = 0, startedBuffers = [], onEndCalls = [] \<rparr>"

text \<open>\<open>if (onEnd) onEnd()\<close>.\<close>

definition callOnEnd :: "callback option \<Rightarrow> 'b tts \<Rightarrow> 'b tts" where
  "callOnEnd cb s = (case cb of None \<Rightarrow> s | Some c \<Rightarrow> s\<lparr>onEndCalls := onEndCalls s @ [c]\<rparr>)"

text \<open>
  \<open>playNextInQueue(onEnd)\<close>. The context exists whenever the queue is not empty, since
  only \<open>speak\<close> fills the queue, after it has created the context.
\<close>

definition playNextInQueue :: "callback option \<Rightarrow> 'b tts \<Rightarrow> 'b tts" where
  "playNextInQueue cb s =
     (if isStoppingRef s
      then callOnEnd cb (s\<lparr>audioQueueRef := [], sourceNodeRef := None, isPlaying := False\<rparr>)
      else (case audioQueueRef s of
              b # rest \<Rightarrow>
                s\<lparr>audioQueueRef := rest,
                  sourceNodeRef := Some (nextNodeId s),
                  liveNodes := liveNodes s @
                    [\<lparr>node_id = nextNodeId s, node_buffer = b, node_rate = playbackRateRef s,
                      node_onEnd = cb, node_stopped = False\<rparr>],
                  nextNodeId := Suc (nextNodeId s),
                  startedBuffers := startedBuffers s @ [b]\<rparr>
            | [] \<Rightarrow> callOnEnd cb (s\<lparr>isPlaying := False, sourceNodeRef := None\<rparr>)))"

text \<open>
  The \<open>ended\<close> event of the node \<open>i\<close>, which the audio context sends once, when the node
  has played its buffer or was stopped: the node is live no more, and the handler
  \<open>sourceNode.onended\<close> set in \<open>playNextInQueue\<close> runs.
\<close>

definition onended :: "nat \<Rightarrow> 'b tts \<Rightarrow> 'b tts" where
  "onended i s =
     (case find (\<lambda>n. node_id n = i) (liveNodes s) of
        None \<Rightarrow> s
      | Some n \<Rightarrow>
          playNextInQueue (node_onEnd n)
            (s\<lparr>liveNodes := remove1 n (liveNodes s), sourceNodeRef := None\<rparr>))"

text \<open>\<open>stop()\<close>. \<open>sourceNodeRef.current.stop()\<close> marks the node; its \<open>ended\<close> event follows.\<close>

definition stop :: "'b tts \<Rightarrow> 'b tts" where
  "stop s =
     (let s1 = s\<lparr>isStoppingRef := True\<rparr>
      in case sourceNodeRef s1 of
           Some i \<Rightarrow>
             s1\<lparr>liveNodes :=
                  map (\<lambda>n. if node_id n = i then n\<lparr>node_stopped := True\<rparr> else n) (liveNodes s1)\<rparr>
         | None \<Rightarrow> s1\<lparr>audioQueueRef := [], isPlaying := False\<rparr>)"

text \<open>
  \<open>Promise.all(base64AudioChunks.map(...))\<close>: the buffers in the order of the payloads,
  or a rejection. \<open>Promise.all\<close> rejects with the rejection that comes first in time;
  the one taken here is that of the first failing payload in the list. Which of several
  rejections it is decides the message that \<open>speak\<close> stores and nothing else.
\<close>

fun decodeAll :: "(jsstring \<Rightarrow> thrown + 'b) \<Rightarrow> jsstring list \<Rightarrow> thrown + 'b list" where
  "decodeAll dec [] = Inr []"
| "decodeAll dec (p # ps) =
     (case dec p of
        Inl err \<Rightarrow> Inl err
      | Inr b \<Rightarrow> (case decodeAll dec ps of Inl err \<Rightarrow> Inl err | Inr bs \<Rightarrow> Inr (b # bs)))"

text \<open>\<open>e instanceof Error ? e.message : '...'\<close>, the message that \<open>speak\<close> shows.\<close>

definition thrownMessage :: "thrown \<Rightarrow> jsstring" where
  "thrownMessage e = (case e of ErrorObj m \<Rightarrow> m | OtherValue \<Rightarrow> msgSpeakUnknown)"

text \<open>The \<open>catch\<close> block of \<open>speak\<close>.\<close>

definition speak_catch :: "thrown \<Rightarrow> options \<Rightarrow> 'b tts \<Rightarrow> 'b tts" where
  "speak_catch e opts s =
     callOnEnd (onEnd opts)
       (s\<lparr>error := Some (thrownMessage e),
          isPlaying := False,
          audioQueueRef := []\<rparr>)"

text \<open>The statements of \<open>speak\<close> before its \<open>try\<close> block.\<close>

definition prologue :: "options \<Rightarrow> 'b tts \<Rightarrow> 'b tts" where
  "prologue opts s = (stop s)\<lparr>isStoppingRef := False, isLoading := True, error := None,
     playbackRateRef := (case playbackRate opts of None \<Rightarrow> 1 | Some r \<Rightarrow> r)\<rparr>"

text \<open>
  \<open>speak(text, options)\<close> from the call to its first \<open>await\<close>, or to its end when the text
  is blank: the state, and whether the call is suspended at \<open>await generateSpeech(text)\<close>.
\<close>

definition speak_begin :: "jsstring \<Rightarrow> options \<Rightarrow> 'b tts \<Rightarrow> 'b tts \<times> bool" where
  "speak_begin text opts s =
     (let s1 = prologue opts s
      in if trim text = [] then ((callOnEnd (onEnd opts) s1)\<lparr>isLoading := False\<rparr>, False)
         else (s1, True))"

text \<open>
  The rest of \<open>speak\<close>, from the settlement of \<open>generateSpeech(text)\<close> to the end of the
  \<open>finally\<close> block; the second component lists the texts sent to the remote model.
  Between its three \<open>await\<close>s the function touches \<open>audioContextRef\<close> only, which nothing
  else writes, so the three are taken as one. Creating and resuming the audio context
  is taken to succeed.
\<close>

definition speak_resume :: "'b env \<Rightarrow> jsstring \<Rightarrow> options \<Rightarrow> 'b tts \<Rightarrow> 'b tts \<times> jsstring list" where
  "speak_resume e text opts s1 =
     (case generateSpeech e text of
        (Inl err, sent) \<Rightarrow> ((speak_catch err opts s1)\<lparr>isLoading := False\<rparr>, sent)
      | (Inr base64AudioChunks, sent) \<Rightarrow>
          (let s2 = s1\<lparr>audioContextRef := True\<rparr>
           in case decodeAll (decodeAudio e) base64AudioChunks of
                Inl err \<Rightarrow> ((speak_catch err opts s2)\<lparr>isLoading := False\<rparr>, sent)
              | Inr audioBuffers \<Rightarrow>
                  (let s3 = s2\<lparr>audioQueueRef := audioBuffers\<rparr>
                   in ((if audioBuffers \<noteq> []
                        then playNextInQueue (onEnd opts) (s3\<lparr>isPlaying := True\<rparr>)
                        else callOnEnd (onEnd opts) s3)\<lparr>isLoading := False\<rparr>, sent))))"

text \<open>\<open>speak(text, options)\<close> as a whole, when nothing else happens while it waits.\<close>

definition speak :: "'b env \<Rightarrow> jsstring \<Rightarrow> options \<Rightarrow> 'b tts \<Rightarrow> 'b tts \<times> jsstring list" where
  "speak e text opts s =
     (case speak_begin text opts s of
        (s1, False) \<Rightarrow> (s1, [])
      | (s1, True) \<Rightarrow> speak_resume e text opts s1)"

text \<open>
  The \<open>ended\<close> event of the oldest live node, and playback left to itself until no node
  is live: each node plays its buffer to the end.
\<close>

definition fireEnded :: "'b tts \<Rightarrow> 'b tts" where
  "fireEnded s = (case liveNodes s of [] \<Rightarrow> s | n # ns \<Rightarrow> onended (node_id n) s)"

function playToEnd :: "'b tts \<Rightarrow> 'b tts" where
  "playToEnd s = (if liveNodes s = [] then s else playToEnd (fireEnded s))"
  by pat_completeness auto
termination
proof (relation "measure (\<lambda>s. length (audioQueueRef s) + length (liveNodes s))")
  show "wf (measure (\<lambda>s :: 'b tts. length (audioQueueRef s) + length (liveNodes s)))"
    by simp
next
  fix s :: "'b tts"
  assume "liveNodes s \<noteq> []"
  then obtain n ns where l: "liveNodes s = n # ns"
    by (cases "liveNodes s") auto
  have "length (audioQueueRef (fireEnded s)) + length (liveNodes (fireEnded s))
      < length (audioQueueRef s) + length (liveNodes s)"
    by (cases "audioQueueRef s")
      (auto simp: fireEnded_def onended_def l playNextInQueue_def callOnEnd_def
        split: option.split)
  then show "(fireEnded s, s) \<in> measure (\<lambda>s. length (audioQueueRef s) + length (liveNodes s))"
    by simp
qed

declare playToEnd.simps [simp del]

text \<open>
  What can happen to the hook, in any order: \<open>speak\<close> is called, the \<open>generateSpeech\<close>
  promise of an earlier \<open>speak\<close> call settles and that call runs to its end, a node ends,
  \<open>stop\<close> is called.
\<close>

datatype event =
  CallSpeak jsstring options | Settle jsstring options | Ended nat | CallStop

fun step :: "'b env \<Rightarrow> event \<Rightarrow> 'b tts \<Rightarrow> 'b tts" where
  "step e (CallSpeak text opts) s = fst (speak_begin text opts s)"
| "step e (Settle text opts) s = fst (speak_resume e text opts s)"
| "step e (Ended i) s = onended i s"
| "step e CallStop s = stop s"

definition run :: "'b env \<Rightarrow> event list \<Rightarrow> 'b tts \<Rightarrow> 'b tts" where
  "run e events s = foldl (\<lambda>t ev. step e ev t) s events"

section \<open>Notions used in the statements\<close>

text \<open>
  The five categories of the failure taxonomy of the specification, the message of each,
  and the category that the substring tests of \<open>handleApiError\<close> choose for a
  lower-cased message.
\<close>

datatype category =
  InvalidCredential | RateLimited | ServiceUnavailable | MalformedRequest | UnknownError

fun categoryMessage :: "category \<Rightarrow> jsstring" where
  "categoryMessage InvalidCredential = msgInvalidKey"
| "categoryMessage RateLimited = msgRateLimit"
| "categoryMessage ServiceUnavailable = msgUnavailable"
| "categoryMessage MalformedRequest = msgBadRequest"
| "categoryMessage UnknownError = msgUnexpected"

definition classify :: "jsstring \<Rightarrow> category" where
  "classify errorMessage =
     (if includesStr errorMessage (lit ''api key not valid'') \<or>
         includesStr errorMessage (lit ''permission denied'') then InvalidCredential
      else if includesStr errorMessage (lit ''rate limit'') then RateLimited
      else if includesStr errorMessage (lit ''500'') \<or> includesStr errorMessage (lit ''503'') \<or>
              includesStr errorMessage (lit ''server error'') \<or>
              includesStr errorMessage (lit ''rpc failed'') then ServiceUnavailable
      else if includesStr errorMessage (lit ''400'') \<or> includesStr errorMessage (lit ''invalid'')
      then MalformedRequest
      else UnknownError)"

text \<open>
  The content of a string that chunking is to keep: its code units other than white
  space. A chunk is in order when it is not empty and no longer than the limit; the
  running buffer of the loop is in order when it is empty or a text that begins and ends
  with a code unit other than white space, no longer than the limit, followed by one
  space.
\<close>

definition nonWhitespace :: "jsstring \<Rightarrow> jsstring" where
  "nonWhitespace s = filter (\<lambda>c. \<not> isWhitespace c) s"

definition chunksOk :: "jsstring list \<Rightarrow> bool" where
  "chunksOk chunks \<longleftrightarrow> (\<forall>c\<in>set chunks. 0 < length c \<and> length c \<le> MAX_TEXT_LENGTH)"

definition bufferOk :: "jsstring \<Rightarrow> bool" where
  "bufferOk cur \<longleftrightarrow>
     cur = [] \<or>
     (\<exists>u. cur = u @ [0x20] \<and> u \<noteq> [] \<and> \<not> isWhitespace (hd u) \<and> \<not> isWhitespace (last u) \<and>
          length u \<le> MAX_TEXT_LENGTH)"

text \<open>
  The live nodes whose handler holds the callback \<open>cb\<close>, and the \<open>speak\<close> calls with
  \<open>cb\<close> that an event brings to their end: a call with a blank text ends at once, any
  other call ends when its promise has settled.
\<close>

definition holding :: "callback \<Rightarrow> 'b tts \<Rightarrow> nat" where
  "holding cb s = length (filter (\<lambda>n. node_onEnd n = Some cb) (liveNodes s))"

fun completes :: "callback \<Rightarrow> event \<Rightarrow> nat" where
  "completes cb (CallSpeak text opts) = (if trim text = [] \<and> onEnd opts = Some cb then 1 else 0)"
| "completes cb (Settle text opts) = (if onEnd opts = Some cb then 1 else 0)"
| "completes cb (Ended i) = 0"
| "completes cb CallStop = 0"

text \<open>
  The calls of \<open>cb\<close> made so far together with the calls that are still to come from
  the live nodes.
\<close>

definition owed :: "callback \<Rightarrow> 'b tts \<Rightarrow> nat" where
  "owed cb s = count_list (onEndCalls s) cb + holding cb s"

text \<open>The calls that \<open>if (onEnd) onEnd()\<close> makes.\<close>

definition cbList :: "callback option \<Rightarrow> callback list" where
  "cbList cb = (case cb of None \<Rightarrow> [] | Some c \<Rightarrow> [c])"

text \<open>
  The state \<open>t\<close> in the middle of an undisturbed playback of \<open>bufs\<close> that began in
  \<open>s\<close>: buffer \<open>k\<close> is playing in the only live node, the buffers after it wait in
  the queue, the buffers up to it were started, in order, and \<open>onEnd\<close> was not called.
\<close>

definition playingAt :: "'b list \<Rightarrow> callback option \<Rightarrow> 'b tts \<Rightarrow> nat \<Rightarrow> 'b tts \<Rightarrow> bool" where
  "playingAt bufs cb s k t \<longleftrightarrow>
     \<not> isStoppingRef t \<and>
     length (liveNodes t) = 1 \<and>
     map node_buffer (liveNodes t) = [bufs ! k] \<and>
     map node_onEnd (liveNodes t) = [cb] \<and>
     sourceNodeRef t = Some (node_id (hd (liveNodes t))) \<and>
     audioQueueRef t = drop (Suc k) bufs \<and>
     startedBuffers t = startedBuffers s @ take (Suc k) bufs \<and>
     onEndCalls t = onEndCalls s \<and>
     isPlaying t = isPlaying s"

section \<open>Sample inputs\<close>

text \<open>Lower-casing of the letters A to Z, which is what \<open>toLowerCase\<close> does on ASCII text.\<close>

definition asciiLower :: "jsstring \<Rightarrow> jsstring" where
  "asciiLower s = map (\<lambda>c. if 0x41 \<le> c \<and> c \<le> 0x5A then c + 0x20 else c) s"

text \<open>
  An environment with a credential, a remote model that answers every request with a
  payload, and a decoder that gives the length of the payload as the buffer; then the
  same without the credential, with a remote model that fails, and with a decoder that
  fails.
\<close>

definition sampleEnv :: "nat env" where
  "sampleEnv = \<lparr>API_KEY = Some (lit ''key''),
     generateContent = (\<lambda>n t. Inr (Some (lit ''AAAA''))),
     formatCategory = unicodeCf, toLowerCase = asciiLower,
     decodeAudio = (\<lambda>p. Inr (length p))\<rparr>"

definition noKeyEnv :: "nat env" where
  "noKeyEnv = sampleEnv\<lparr>API_KEY := None\<rparr>"

definition failEnv :: "nat env" where
  "failEnv = sampleEnv\<lparr>generateContent := (\<lambda>n t. Inl (ErrorObj (lit ''Rate limit exceeded'')))\<rparr>"

definition badAudioEnv :: "nat env" where
  "badAudioEnv = sampleEnv\<lparr>decodeAudio := (\<lambda>p. Inl OtherValue)\<rparr>"

definition sampleOptions :: options where
  "sampleOptions = \<lparr>onEnd = Some 7, playbackRate = None\<rparr>"

text \<open>
  A hook that plays buffer 10 of the buffers 10, 20, 30 for the callback 7, and a hook
  that was just handed the three buffers.
\<close>

definition sampleNode :: "nat source_node" where
  "sampleNode = \<lparr>node_id = 0, node_buffer = 10, node_rate = 1, node_onEnd = Some 7,
     node_stopped = False\<rparr>"

definition samplePlaying :: "nat tts" where
  "samplePlaying = initial\<lparr>isPlaying := True, audioContextRef := True, sourceNodeRef := Some 0,
     audioQueueRef := [20, 30], liveNodes := [sampleNode], nextNodeId := 1,
     startedBuffers := [10]\<rparr>"


section \<open>Properties of the chunker\<close>

lemma ceil_div_step:
  fixes d m :: nat
  assumes "0 < m" "0 < d"
  shows "Suc ((d - m + m - 1) div m) = (d + m - 1) div m"
proof (cases "m \<le> d")
  case True
  then have e: "d + m - 1 = (d - m + m - 1) + m" using assms by simp
  have "(d + m - 1) div m = ((d - m + m - 1) + m) div m" using e by simp
  also have "\<dots> = (d - m + m - 1) div m + 1"
    using assms(1) by (simp only: div_add_self2 [OF less_imp_neq [THEN not_sym]])
  finally show ?thesis by simp
next
  case False
  then have a: "(d - m + m - 1) div m = 0" using assms by simp
  have e: "d + m - 1 = (d - 1) + m" using assms by simp
  have "(d + m - 1) div m = ((d - 1) + m) div m" using e by simp
  also have "\<dots> = (d - 1) div m + 1"
    using assms(1) by (simp only: div_add_self2 [OF less_imp_neq [THEN not_sym]])
  also have "\<dots> = 1" using False assms by simp
  finally show ?thesis using a by simp
qed

lemma MAX_TEXT_LENGTH_pos: "0 < MAX_TEXT_LENGTH"
  by (simp add: MAX_TEXT_LENGTH_def)

lemma substring_take_drop: "substring s i (i + n) = take n (drop i s)"
proof (cases "i + n \<le> length s")
  case True
  then show ?thesis
    by (simp add: substring_def Let_def min_absorb1 max_absorb2 drop_take)
next
  case False
  show ?thesis
  proof (cases "i \<le> length s")
    case True
    with False show ?thesis
      by (simp add: substring_def Let_def min_absorb1 min_absorb2 max_absorb2)
  next
    case False
    then show ?thesis
      by (simp add: substring_def Let_def min_absorb2)
  qed
qed

lemma forceSplit_unfold:
  "forceSplit s i = (if i < length s then take MAX_TEXT_LENGTH (drop i s) # forceSplit s (i + MAX_TEXT_LENGTH) else [])"
  by (subst forceSplit.simps) (simp add: substring_take_drop)

lemma concat_forceSplit: "concat (forceSplit s i) = drop i s"
proof (induction s i rule: forceSplit.induct)
  case (1 s i)
  show ?case
  proof (cases "i < length s")
    case True
    have "concat (forceSplit s i) = take MAX_TEXT_LENGTH (drop i s) @ drop (i + MAX_TEXT_LENGTH) s"
      using True 1 by (subst forceSplit_unfold) simp
    also have "\<dots> = take MAX_TEXT_LENGTH (drop i s) @ drop MAX_TEXT_LENGTH (drop i s)"
      by (simp add: add.commute)
    also have "\<dots> = drop i s"
      by (rule append_take_drop_id)
    finally show ?thesis .
  next
    case False
    then show ?thesis by (subst forceSplit_unfold) simp
  qed
qed

lemma length_forceSplit: "length (forceSplit s i) = (length s - i + MAX_TEXT_LENGTH - 1) div MAX_TEXT_LENGTH"
proof (induction s i rule: forceSplit.induct)
  case (1 s i)
  show ?case
  proof (cases "i < length s")
    case True
    have "length (forceSplit s i) = Suc ((length s - (i + MAX_TEXT_LENGTH) + MAX_TEXT_LENGTH - 1) div MAX_TEXT_LENGTH)"
      using True 1 by (subst forceSplit_unfold) simp
    also have "\<dots> = Suc ((length s - i - MAX_TEXT_LENGTH + MAX_TEXT_LENGTH - 1) div MAX_TEXT_LENGTH)"
      by simp
    also have "\<dots> = (length s - i + MAX_TEXT_LENGTH - 1) div MAX_TEXT_LENGTH"
      using True by (intro ceil_div_step MAX_TEXT_LENGTH_pos) simp
    finally show ?thesis .
  next
    case False
    then have "length s - i = 0" by simp
    with False show ?thesis
      using MAX_TEXT_LENGTH_pos by (subst forceSplit_unfold) simp
  qed
qed

lemma nth_forceSplit:
  "k < length (forceSplit s i) \<Longrightarrow> forceSplit s i ! k = take MAX_TEXT_LENGTH (drop (i + k * MAX_TEXT_LENGTH) s)"
proof (induction s i arbitrary: k rule: forceSplit.induct)
  case (1 s i)
  show ?case
  proof (cases "i < length s")
    case True
    note fs = forceSplit_unfold [of s i]
    show ?thesis
    proof (cases k)
      case 0
      then show ?thesis using True by (subst fs) simp
    next
      case (Suc j)
      with "1.prems" True have "j < length (forceSplit s (i + MAX_TEXT_LENGTH))"
        by (subst (asm) fs) simp
      from "1.IH" [OF True this] Suc True show ?thesis
        by (subst fs) (simp add: algebra_simps)
    qed
  next
    case False
    with "1.prems" show ?thesis by (subst (asm) forceSplit_unfold) simp
  qed
qed

lemma trim_Nil: "trim [] = []"
  by (simp add: trim_def)

lemma last_dropWhile: "dropWhile P xs \<noteq> [] \<Longrightarrow> last (dropWhile P xs) = last xs"
  by (induction xs) (auto split: if_splits)

lemma hd_dropWhile_not: "dropWhile P xs \<noteq> [] \<Longrightarrow> \<not> P (hd (dropWhile P xs))"
  using hd_dropWhile by blast

lemma dropWhile_hd_id: "xs \<noteq> [] \<Longrightarrow> \<not> P (hd xs) \<Longrightarrow> dropWhile P xs = xs"
  by (cases xs) simp_all

lemma trim_id:
  assumes "s \<noteq> []" "\<not> isWhitespace (hd s)" "\<not> isWhitespace (last s)"
  shows "trim s = s"
proof -
  have a: "dropWhile isWhitespace s = s"
    using assms(1,2) by (rule dropWhile_hd_id)
  have "hd (rev s) = last s" using assms(1) by (simp add: hd_rev)
  then have "dropWhile isWhitespace (rev s) = rev s"
    using assms(1,3) by (intro dropWhile_hd_id) simp_all
  with a show ?thesis by (simp add: trim_def)
qed

lemma trim_ends:
  assumes "trim s \<noteq> []"
  shows "\<not> isWhitespace (hd (trim s))" and "\<not> isWhitespace (last (trim s))"
proof -
  let ?u = "dropWhile isWhitespace s"
  let ?v = "dropWhile isWhitespace (rev ?u)"
  from assms have v: "?v \<noteq> []" by (simp add: trim_def)
  have u: "?u \<noteq> []"
  proof
    assume "?u = []"
    then have "?v = []" by (simp only: rev.simps dropWhile.simps)
    with v show False by simp
  qed
  have "hd (trim s) = last ?v" using v by (simp add: trim_def hd_rev)
  also have "\<dots> = last (rev ?u)" using v by (rule last_dropWhile)
  also have "\<dots> = hd ?u" using u by (simp add: last_rev)
  finally show "\<not> isWhitespace (hd (trim s))" using hd_dropWhile_not [OF u] by simp
  have "last (trim s) = hd ?v" using v by (simp add: trim_def last_rev)
  then show "\<not> isWhitespace (last (trim s))" using hd_dropWhile_not [OF v] by simp
qed

lemma trim_trim: "trim (trim s) = trim s"
proof (cases "trim s = []")
  case True
  then show ?thesis by (simp add: trim_Nil)
next
  case False
  then show ?thesis by (intro trim_id trim_ends)
qed

lemma matchSentences_no_terminator:
  assumes "s \<noteq> []" "\<forall>c\<in>set s. \<not> isTerminator c"
  shows "matchSentences s = [s]"
proof -
  from assms(1) obtain c cs where s: "s = c # cs" by (cases s) auto
  from assms(2) have c: "\<not> isTerminator c" and cs: "\<forall>x\<in>set cs. \<not> isTerminator x"
    by (simp_all add: s)
  have t: "takeWhile (\<lambda>x. \<not> isTerminator x) cs = cs"
    using cs by simp
  have d: "dropWhile (\<lambda>x. \<not> isTerminator x) cs = []"
    using cs by simp
  have "matchSentences (c # cs) = [c # cs]"
    using c by (simp add: t d)
  then show ?thesis by (simp add: s)
qed

lemma forceSplit_two:
  assumes "length s = MAX_TEXT_LENGTH + 1"
  shows "forceSplit s 0 = [take MAX_TEXT_LENGTH s, drop MAX_TEXT_LENGTH s]"
proof -
  have a: "forceSplit s 0 = take MAX_TEXT_LENGTH s # forceSplit s MAX_TEXT_LENGTH"
    using assms by (subst forceSplit_unfold) simp
  have b: "forceSplit s MAX_TEXT_LENGTH = drop MAX_TEXT_LENGTH s # forceSplit s (MAX_TEXT_LENGTH + MAX_TEXT_LENGTH)"
    by (subst forceSplit_unfold) (use assms MAX_TEXT_LENGTH_pos in \<open>simp add: Suc_le_eq\<close>)
  have c: "forceSplit s (MAX_TEXT_LENGTH + MAX_TEXT_LENGTH) = []"
    by (subst forceSplit_unfold) (use assms MAX_TEXT_LENGTH_pos in simp)
  show ?thesis by (simp add: a b c)
qed

lemma flush_Nil: "flush chunks [] = chunks"
  by (simp add: flush_def trim_Nil)

lemma processSentence_long:
  assumes "MAX_TEXT_LENGTH < length (trim sentence)"
  shows "processSentence (chunks, currentChunk) sentence =
    (flush chunks currentChunk @ forceSplit (trim sentence) 0, [])"
proof -
  from assms have "trim sentence \<noteq> []" by auto
  with assms show ?thesis by (simp add: processSentence_def Let_def)
qed

lemma chunkText_unpunctuated:
  assumes len: "length (trim text) = MAX_TEXT_LENGTH + 1"
    and np: "\<forall>c\<in>set (trim text). \<not> isTerminator c"
  shows "chunkText text = [take MAX_TEXT_LENGTH (trim text), drop MAX_TEXT_LENGTH (trim text)]"
proof -
  let ?t = "trim text"
  from len have ne: "?t \<noteq> []" by auto
  have m: "matchSentences ?t = [?t]"
    using ne np by (rule matchSentences_no_terminator)
  have long: "MAX_TEXT_LENGTH < length (trim ?t)" using len by (simp add: trim_trim)
  have "foldl processSentence ([], []) (matchSentences ?t) = (forceSplit ?t 0, [])"
    by (simp add: m processSentence_long [OF long] flush_Nil trim_trim)
  then have "chunkText text = forceSplit ?t 0"
    using ne len by (simp add: chunkText_def Let_def flush_Nil)
  then show ?thesis by (simp add: forceSplit_two [OF len])
qed

lemma forceSplit_full_slice:
  assumes "Suc k < length (forceSplit s 0)"
  shows "length (forceSplit s 0 ! k) = MAX_TEXT_LENGTH"
proof -
  from assms have "Suc (Suc k) \<le> (length s + MAX_TEXT_LENGTH - 1) div MAX_TEXT_LENGTH"
    by (simp add: length_forceSplit)
  then have "Suc (Suc k) * MAX_TEXT_LENGTH \<le> length s + MAX_TEXT_LENGTH - 1"
    using MAX_TEXT_LENGTH_pos by (simp only: less_eq_div_iff_mult_less_eq)
  then have "k * MAX_TEXT_LENGTH + MAX_TEXT_LENGTH \<le> length s"
    using MAX_TEXT_LENGTH_pos by simp
  moreover have "forceSplit s 0 ! k = take MAX_TEXT_LENGTH (drop (k * MAX_TEXT_LENGTH) s)"
    using assms nth_forceSplit [of k s 0] by simp
  ultimately show ?thesis by simp
qed

lemma forceSplit_last_slice:
  assumes "s \<noteq> []"
  shows "forceSplit s 0 \<noteq> []"
    and "0 < length (last (forceSplit s 0))"
    and "length (last (forceSplit s 0)) \<le> MAX_TEXT_LENGTH"
proof -
  let ?n = "length (forceSplit s 0)"
  show ne: "forceSplit s 0 \<noteq> []"
    using assms by (subst forceSplit_unfold) simp
  then have n: "0 < ?n" by simp
  have l: "last (forceSplit s 0) = take MAX_TEXT_LENGTH (drop ((?n - 1) * MAX_TEXT_LENGTH) s)"
    using ne n nth_forceSplit [of "?n - 1" s 0] by (simp add: last_conv_nth)
  have "?n \<le> (length s + MAX_TEXT_LENGTH - 1) div MAX_TEXT_LENGTH"
    by (simp add: length_forceSplit)
  then have "?n * MAX_TEXT_LENGTH \<le> length s + MAX_TEXT_LENGTH - 1"
    using MAX_TEXT_LENGTH_pos by (simp only: less_eq_div_iff_mult_less_eq)
  moreover have "?n * MAX_TEXT_LENGTH = (?n - 1) * MAX_TEXT_LENGTH + MAX_TEXT_LENGTH"
    using n by (cases ?n) simp_all
  ultimately have "(?n - 1) * MAX_TEXT_LENGTH < length s"
    using assms MAX_TEXT_LENGTH_pos by (cases s) simp_all
  then show "0 < length (last (forceSplit s 0))"
    using MAX_TEXT_LENGTH_pos by (simp add: l)
  show "length (last (forceSplit s 0)) \<le> MAX_TEXT_LENGTH"
    by (simp add: l)
qed

text \<open>
  Claim C3, with the lengths taken after trimming, as the chunker takes them. A sentence
  whose trimmed form is longer than \<open>MAX_TEXT_LENGTH\<close> makes the loop
  body flush the current buffer first and then append the forced split of the sentence,
  leaving the buffer empty. The forced split is the sentence cut into consecutive slices:
  slice \<open>k\<close> is the \<open>MAX_TEXT_LENGTH\<close> code units from index \<open>k * MAX_TEXT_LENGTH\<close> on
  (wherever a word may be), every slice but the last has exactly \<open>MAX_TEXT_LENGTH\<close> code
  units, the last one holds the remainder (at least one code unit), and the slices
  concatenate to the sentence. In particular a text whose trimmed form has
  \<open>MAX_TEXT_LENGTH + 1\<close> code units and no terminator yields exactly two chunks, of
  \<open>MAX_TEXT_LENGTH\<close> code units and of one.
\<close>

theorem chunkText_force_split:
  "(MAX_TEXT_LENGTH < length (trim sentence) \<longrightarrow>
      processSentence (chunks, currentChunk) sentence =
        (flush chunks currentChunk @ forceSplit (trim sentence) 0, []) \<and>
      concat (forceSplit (trim sentence) 0) = trim sentence \<and>
      (\<forall>k. k < length (forceSplit (trim sentence) 0) \<longrightarrow>
         forceSplit (trim sentence) 0 ! k =
           take MAX_TEXT_LENGTH (drop (k * MAX_TEXT_LENGTH) (trim sentence))) \<and>
      (\<forall>k. Suc k < length (forceSplit (trim sentence) 0) \<longrightarrow>
         length (forceSplit (trim sentence) 0 ! k) = MAX_TEXT_LENGTH) \<and>
      0 < length (last (forceSplit (trim sentence) 0)) \<and>
      length (last (forceSplit (trim sentence) 0)) \<le> MAX_TEXT_LENGTH) \<and>
   (length (trim text) = MAX_TEXT_LENGTH + 1 \<and> (\<forall>c\<in>set (trim text). \<not> isTerminator c) \<longrightarrow>
      chunkText text = [take MAX_TEXT_LENGTH (trim text), drop MAX_TEXT_LENGTH (trim text)] \<and>
      map length (chunkText text) = [MAX_TEXT_LENGTH, 1])"
proof (intro conjI impI allI)
  assume long: "MAX_TEXT_LENGTH < length (trim sentence)"
  then have ne: "trim sentence \<noteq> []" by auto
  show "processSentence (chunks, currentChunk) sentence =
      (flush chunks currentChunk @ forceSplit (trim sentence) 0, [])"
    using long by (rule processSentence_long)
  show "concat (forceSplit (trim sentence) 0) = trim sentence"
    by (simp add: concat_forceSplit)
  show "0 < length (last (forceSplit (trim sentence) 0))"
    using ne by (rule forceSplit_last_slice)
  show "length (last (forceSplit (trim sentence) 0)) \<le> MAX_TEXT_LENGTH"
    using ne by (rule forceSplit_last_slice)
next
  fix k
  assume "k < length (forceSplit (trim sentence) 0)"
  then show "forceSplit (trim sentence) 0 ! k =
      take MAX_TEXT_LENGTH (drop (k * MAX_TEXT_LENGTH) (trim sentence))"
    using nth_forceSplit [of k "trim sentence" 0] by simp
next
  fix k
  assume "Suc k < length (forceSplit (trim sentence) 0)"
  then show "length (forceSplit (trim sentence) 0 ! k) = MAX_TEXT_LENGTH"
    by (rule forceSplit_full_slice)
next
  assume h: "length (trim text) = MAX_TEXT_LENGTH + 1 \<and> (\<forall>c\<in>set (trim text). \<not> isTerminator c)"
  then show c: "chunkText text = [take MAX_TEXT_LENGTH (trim text), drop MAX_TEXT_LENGTH (trim text)]"
    by (intro chunkText_unpunctuated) simp_all
  from h show "map length (chunkText text) = [MAX_TEXT_LENGTH, 1]"
    by (simp add: c)
qed

lemma trim_replicate:
  "\<not> isWhitespace a \<Longrightarrow> trim (replicate n a) = replicate n a"
  by (cases n) (simp_all add: trim_Nil trim_id)

lemma not_ws_a: "\<not> isWhitespace 0x61"
  by (simp add: isWhitespace_def)
lemma not_term_a: "\<not> isTerminator 0x61"
  by (simp add: isTerminator_def)

theorem chunkText_force_split_witness:
  "MAX_TEXT_LENGTH < length (trim (replicate 4501 0x61)) \<and>
   length (trim (replicate 4501 0x61)) = MAX_TEXT_LENGTH + 1 \<and>
   processSentence ([], [0x48, 0x69, 0x2E, 0x20]) (replicate 4501 0x61) =
     ([0x48, 0x69, 0x2E] # forceSplit (replicate 4501 0x61) 0, []) \<and>
   chunkText (replicate 4501 0x61) = [replicate 4500 0x61, [0x61]]"
proof -
  let ?t = "replicate 4501 (0x61 :: code_unit)"
  have t: "trim ?t = ?t" using not_ws_a by (rule trim_replicate)
  have fl: "flush [] [0x48, 0x69, 0x2E, 0x20] = [[0x48, 0x69, 0x2E :: code_unit]]"
    by (simp add: flush_def trim_def isWhitespace_def)
  have h1: "MAX_TEXT_LENGTH < length (trim ?t)" by (simp add: t MAX_TEXT_LENGTH_def)
  have h2: "length (trim ?t) = MAX_TEXT_LENGTH + 1 \<and> (\<forall>c\<in>set (trim ?t). \<not> isTerminator c)"
    using not_term_a by (simp add: t MAX_TEXT_LENGTH_def)
  have d: "drop 4500 ?t = [0x61]"
    by (simp only: drop_replicate) simp
  from chunkText_force_split [of ?t "[]" "[0x48, 0x69, 0x2E, 0x20]" ?t] h1 h2
  show ?thesis
    by (simp add: t fl d MAX_TEXT_LENGTH_def)
qed

lemma trim_append_space:
  assumes "s \<noteq> []" "\<not> isWhitespace (hd s)" "\<not> isWhitespace (last s)" "isWhitespace w"
  shows "trim (s @ [w]) = s"
proof -
  have a: "dropWhile isWhitespace (s @ [w]) = s @ [w]"
    using assms(1,2) by (intro dropWhile_hd_id) simp_all
  have "hd (rev s) = last s" using assms(1) by (simp add: hd_rev)
  then have "dropWhile isWhitespace (rev s) = rev s"
    using assms(1,3) by (intro dropWhile_hd_id) simp_all
  with a assms(4) show ?thesis by (simp add: trim_def)
qed

lemma trim_all_whitespace:
  assumes "\<forall>c\<in>set s. isWhitespace c"
  shows "trim s = []"
proof -
  from assms have "dropWhile isWhitespace s = []" by simp
  then show ?thesis by (simp only: trim_def rev.simps dropWhile.simps)
qed

lemma ws_space: "isWhitespace 0x20"
  by (simp add: isWhitespace_def)
lemma not_ws_b: "\<not> isWhitespace 0x62"
  by (simp add: isWhitespace_def)
lemma not_ws_q: "\<not> isWhitespace 0x3F"
  by (simp add: isWhitespace_def)
lemma term_q: "isTerminator 0x3F"
  by (simp add: isTerminator_def)
lemma not_term_b: "\<not> isTerminator 0x62"
  by (simp add: isTerminator_def)
lemma not_term_space: "\<not> isTerminator 0x20"
  by (simp add: isTerminator_def)

text \<open>
  Claim C4, evaluated where the code departs from it. The text is a question mark followed
  by 4500 letters \<open>a\<close>, 4501 code units in all, so the sentence pattern is used. No
  match of the pattern can start at the leading terminator, so the only sentence is the
  run of letters and the only chunk holds 4500 letters: the question mark, which is not
  white space, is in the input and in no chunk.
\<close>

theorem chunkText_drops_leading_terminator:
  "chunkText (0x3F # replicate 4500 0x61) = [replicate 4500 0x61] \<and>
   nonWhitespace (concat (chunkText (0x3F # replicate 4500 0x61))) \<noteq>
   nonWhitespace (0x3F # replicate 4500 0x61)"
proof -
  let ?a = "replicate 4500 (0x61 :: code_unit)"
  let ?x = "0x3F # ?a"
  have tx: "trim ?x = ?x"
    using not_ws_q not_ws_a by (intro trim_id) simp_all
  have ta: "trim ?a = ?a" using not_ws_a by (rule trim_replicate)
  have m: "matchSentences ?x = [?a]"
    using term_q not_term_a matchSentences_no_terminator [of ?a] by simp
  have p: "processSentence ([], []) ?a = ([], ?a @ [0x20])"
    by (simp add: processSentence_def Let_def ta flush_Nil MAX_TEXT_LENGTH_def)
  have f: "flush [] (?a @ [0x20]) = [?a]"
    using trim_append_space [of ?a "0x20"] not_ws_a ws_space by (simp add: flush_def)
  have c: "chunkText ?x = [?a]"
    by (simp add: chunkText_def Let_def tx m p f MAX_TEXT_LENGTH_def del: matchSentences.simps)
  have "length (filter (\<lambda>c. \<not> isWhitespace c) (concat [?a])) \<le> 4500"
    using length_filter_le [of "\<lambda>c. \<not> isWhitespace c" ?a] by simp
  moreover have "length (filter (\<lambda>c. \<not> isWhitespace c) ?x) = 4501"
    using not_ws_q not_ws_a by simp
  ultimately have "filter (\<lambda>c. \<not> isWhitespace c) (concat [?a]) \<noteq> filter (\<lambda>c. \<not> isWhitespace c) ?x"
    by auto
  with c show ?thesis by (simp add: nonWhitespace_def)
qed

text \<open>
  Claim C2, evaluated where the code departs from it. The text is 4500 letters \<open>a\<close>, then
  4500 spaces, then the letter \<open>b\<close>: one sentence of 9001 code units without a
  terminator. The forced split cuts it at the indices 4500 and 9000, and the second slice
  consists of spaces only: a chunk that is empty after trimming.
\<close>

theorem chunkText_whitespace_only_chunk:
  "chunkText (replicate 4500 0x61 @ replicate 4500 0x20 @ [0x62]) =
     [replicate 4500 0x61, replicate 4500 0x20, [0x62]] \<and>
   trim (replicate 4500 0x20) = []"
proof -
  let ?a = "replicate 4500 (0x61 :: code_unit)"
  let ?s = "replicate 4500 (0x20 :: code_unit)"
  let ?x = "?a @ ?s @ [0x62]"
  have tx: "trim ?x = ?x"
    using not_ws_a not_ws_b by (intro trim_id) simp_all
  have m: "matchSentences ?x = [?x]"
    using not_term_a not_term_b not_term_space by (intro matchSentences_no_terminator) auto
  have f0: "forceSplit ?x 0 = ?a # forceSplit ?x 4500"
    by (subst forceSplit_unfold) (simp add: MAX_TEXT_LENGTH_def)
  have f1: "forceSplit ?x 4500 = ?s # forceSplit ?x 9000"
    by (subst forceSplit_unfold) (simp add: MAX_TEXT_LENGTH_def)
  have f2: "forceSplit ?x 9000 = [0x62] # forceSplit ?x 13500"
    by (subst forceSplit_unfold) (simp add: MAX_TEXT_LENGTH_def)
  have f3: "forceSplit ?x 13500 = []"
    by (subst forceSplit_unfold) simp
  have p: "processSentence ([], []) ?x = ([?a, ?s, [0x62]], [])"
    by (simp add: processSentence_def Let_def tx flush_Nil f0 f1 f2 f3 MAX_TEXT_LENGTH_def)
  have c: "chunkText ?x = [?a, ?s, [0x62]]"
    by (simp add: chunkText_def Let_def tx m p flush_Nil MAX_TEXT_LENGTH_def del: matchSentences.simps)
  have "trim ?s = []" using ws_space by (intro trim_all_whitespace) simp
  with c show ?thesis by simp
qed

text \<open>
  What holds of the chunker on every text: a blank text gives no chunk and a short one
  gives its trimmed form; every chunk is at least one and at most \<open>MAX_TEXT_LENGTH\<close>
  code units long; and the chunks hold, in order, the code units other than white space
  of the text, except that a long text loses the terminators it begins with.
\<close>

lemma chunkText_blank: "trim text = [] \<Longrightarrow> chunkText text = []"
  by (simp add: chunkText_def)

lemma chunkText_short:
  "trim text \<noteq> [] \<Longrightarrow> length (trim text) \<le> MAX_TEXT_LENGTH \<Longrightarrow> chunkText text = [trim text]"
  by (simp add: chunkText_def)

lemma forceSplit_chunksOk: "chunksOk (forceSplit s i)"
proof (induction s i rule: forceSplit.induct)
  case (1 s i)
  show ?case
  proof (cases "i < length s")
    case True
    with 1 have "chunksOk (forceSplit s (i + MAX_TEXT_LENGTH))" by simp
    with True MAX_TEXT_LENGTH_pos show ?thesis
      by (subst forceSplit_unfold) (simp add: chunksOk_def)
  next
    case False
    then show ?thesis by (subst forceSplit_unfold) (simp add: chunksOk_def)
  qed
qed

lemma chunksOk_append: "chunksOk (xs @ ys) \<longleftrightarrow> chunksOk xs \<and> chunksOk ys"
  by (auto simp: chunksOk_def)

lemma flush_chunksOk:
  assumes "chunksOk chunks" "bufferOk cur"
  shows "chunksOk (flush chunks cur)"
proof (cases "cur = []")
  case True
  with assms(1) show ?thesis by (simp add: flush_Nil)
next
  case False
  with assms(2) obtain u where u: "cur = u @ [0x20]" "u \<noteq> []" "\<not> isWhitespace (hd u)"
    "\<not> isWhitespace (last u)" "length u \<le> MAX_TEXT_LENGTH"
    by (auto simp: bufferOk_def)
  have "trim cur = u" unfolding u(1) using u(2-4) ws_space by (rule trim_append_space)
  with assms(1) u(2,5) show ?thesis by (simp add: flush_def chunksOk_def)
qed

lemma bufferOk_start:
  assumes "trim sentence \<noteq> []" "length (trim sentence) \<le> MAX_TEXT_LENGTH"
  shows "bufferOk (trim sentence @ [0x20])"
  using assms trim_ends [OF assms(1)] by (auto simp: bufferOk_def)

lemma bufferOk_extend:
  assumes "bufferOk cur" "trim sentence \<noteq> []"
    "length cur + length (trim sentence) + 1 \<le> MAX_TEXT_LENGTH"
  shows "bufferOk (cur @ trim sentence @ [0x20])"
proof (cases "cur = []")
  case True
  with assms(2,3) show ?thesis by (simp add: bufferOk_start)
next
  case False
  with assms(1) obtain u where u: "cur = u @ [0x20]" "u \<noteq> []" "\<not> isWhitespace (hd u)"
    "\<not> isWhitespace (last u)" "length u \<le> MAX_TEXT_LENGTH"
    by (auto simp: bufferOk_def)
  let ?v = "u @ 0x20 # trim sentence"
  have "cur @ trim sentence @ [0x20] = ?v @ [0x20]" by (simp add: u(1))
  moreover have "?v \<noteq> []" by simp
  moreover have "\<not> isWhitespace (hd ?v)" using u(2,3) by simp
  moreover have "\<not> isWhitespace (last ?v)" using assms(2) trim_ends(2) [OF assms(2)] by simp
  moreover have "length ?v \<le> MAX_TEXT_LENGTH" using assms(3) by (simp add: u(1))
  ultimately show ?thesis unfolding bufferOk_def by blast
qed

lemma processSentence_ok:
  assumes "chunksOk (fst st)" "bufferOk (snd st)"
  shows "chunksOk (fst (processSentence st sentence)) \<and> bufferOk (snd (processSentence st sentence))"
proof -
  let ?t = "trim sentence"
  consider "?t = []" | "?t \<noteq> []" "MAX_TEXT_LENGTH < length ?t"
    | "?t \<noteq> []" "length ?t \<le> MAX_TEXT_LENGTH" "MAX_TEXT_LENGTH < length (snd st) + length ?t + 1"
    | "?t \<noteq> []" "length ?t \<le> MAX_TEXT_LENGTH" "length (snd st) + length ?t + 1 \<le> MAX_TEXT_LENGTH"
    by linarith
  then show ?thesis
  proof cases
    case 1
    with assms show ?thesis by (simp add: processSentence_def Let_def)
  next
    case 2
    with assms show ?thesis
      by (simp add: processSentence_def Let_def chunksOk_append flush_chunksOk
          forceSplit_chunksOk bufferOk_def)
  next
    case 3
    with assms show ?thesis
      by (simp add: processSentence_def Let_def flush_chunksOk bufferOk_start)
  next
    case 4
    with assms show ?thesis
      by (simp add: processSentence_def Let_def bufferOk_extend)
  qed
qed

lemma foldl_processSentence_ok:
  "chunksOk (fst st) \<Longrightarrow> bufferOk (snd st) \<Longrightarrow>
   chunksOk (fst (foldl processSentence st sentences)) \<and>
   bufferOk (snd (foldl processSentence st sentences))"
proof (induction sentences arbitrary: st)
  case Nil
  then show ?case by simp
next
  case (Cons x xs)
  from processSentence_ok [OF Cons.prems, of x] Cons.IH [of "processSentence st x"]
  show ?case by simp
qed

lemma chunkText_chunks_bounded:
  "\<forall>c\<in>set (chunkText text). 0 < length c \<and> length c \<le> MAX_TEXT_LENGTH"
proof -
  let ?st = "foldl processSentence ([], []) (matchSentences (trim text))"
  have "chunksOk (fst ?st) \<and> bufferOk (snd ?st)"
    by (rule foldl_processSentence_ok) (simp_all add: chunksOk_def bufferOk_def)
  then have "chunksOk (flush (fst ?st) (snd ?st))" by (simp add: flush_chunksOk)
  then have "chunksOk (chunkText text)"
    by (simp add: chunkText_def Let_def chunksOk_def)
  then show ?thesis by (simp add: chunksOk_def)
qed

lemma nonWhitespace_append: "nonWhitespace (xs @ ys) = nonWhitespace xs @ nonWhitespace ys"
  by (simp add: nonWhitespace_def)

lemma nonWhitespace_dropWhile: "nonWhitespace (dropWhile isWhitespace s) = nonWhitespace s"
  by (induction s) (simp_all add: nonWhitespace_def)

lemma nonWhitespace_rev: "nonWhitespace (rev s) = rev (nonWhitespace s)"
  by (simp add: nonWhitespace_def rev_filter)

lemma nonWhitespace_trim: "nonWhitespace (trim s) = nonWhitespace s"
proof -
  have "nonWhitespace (trim s) = rev (nonWhitespace (dropWhile isWhitespace (rev (dropWhile isWhitespace s))))"
    by (simp add: trim_def nonWhitespace_rev)
  also have "\<dots> = rev (nonWhitespace (rev (dropWhile isWhitespace s)))"
    by (simp only: nonWhitespace_dropWhile)
  also have "\<dots> = nonWhitespace (dropWhile isWhitespace s)"
    by (simp add: nonWhitespace_rev)
  finally show ?thesis by (simp only: nonWhitespace_dropWhile)
qed

lemma dropWhile_terminator_after_tail:
  "dropWhile isTerminator (dropWhile isTail s) = dropWhile isTail s"
proof (cases "dropWhile isTail s = []")
  case True
  then show ?thesis by (simp only: dropWhile.simps)
next
  case False
  then have "\<not> isTail (hd (dropWhile isTail s))" by (rule hd_dropWhile_not)
  then have "\<not> isTerminator (hd (dropWhile isTail s))" by (simp add: isTail_def)
  with False show ?thesis by (rule dropWhile_hd_id)
qed

lemma concat_matchSentences: "concat (matchSentences s) = dropWhile isTerminator s"
proof (induction s rule: matchSentences.induct)
  case 1
  show ?case by simp
next
  case (2 c cs)
  show ?case
  proof (cases "isTerminator c")
    case True
    with 2 show ?thesis by simp
  next
    case False
    let ?rest = "dropWhile (\<lambda>x. \<not> isTerminator x) (c # cs)"
    from 2(2) [OF False] have
      "concat (matchSentences (dropWhile isTail ?rest)) = dropWhile isTerminator (dropWhile isTail ?rest)" .
    then have ih: "concat (matchSentences (dropWhile isTail ?rest)) = dropWhile isTail ?rest"
      by (simp only: dropWhile_terminator_after_tail)
    have "concat (matchSentences (c # cs)) =
        (takeWhile (\<lambda>x. \<not> isTerminator x) (c # cs) @ takeWhile isTail ?rest) @
        concat (matchSentences (dropWhile isTail ?rest))"
      using False by (subst matchSentences.simps) simp
    also have "\<dots> = takeWhile (\<lambda>x. \<not> isTerminator x) (c # cs) @
        (takeWhile isTail ?rest @ dropWhile isTail ?rest)"
      by (simp only: ih append_assoc)
    also have "\<dots> = c # cs"
      by (simp only: takeWhile_dropWhile_id)
    finally show ?thesis using False by simp
  qed
qed

lemma nonWhitespace_flush:
  "nonWhitespace (concat (flush chunks cur)) = nonWhitespace (concat chunks) @ nonWhitespace cur"
proof (cases "trim cur = []")
  case True
  then have "nonWhitespace (trim cur) = []" by (simp add: nonWhitespace_def)
  then have "nonWhitespace cur = []" by (simp add: nonWhitespace_trim)
  with True show ?thesis by (simp add: flush_def)
next
  case False
  then show ?thesis by (simp add: flush_def nonWhitespace_append nonWhitespace_trim)
qed

lemma nonWhitespace_space: "nonWhitespace [0x20] = []"
  using ws_space by (simp add: nonWhitespace_def)

lemma processSentence_content:
  "nonWhitespace (concat (fst (processSentence st sentence)) @ snd (processSentence st sentence)) =
   nonWhitespace (concat (fst st) @ snd st) @ nonWhitespace sentence"
proof -
  let ?t = "trim sentence"
  have t: "nonWhitespace ?t = nonWhitespace sentence" by (rule nonWhitespace_trim)
  consider "?t = []" | "?t \<noteq> []" "MAX_TEXT_LENGTH < length ?t"
    | "?t \<noteq> []" "length ?t \<le> MAX_TEXT_LENGTH" "MAX_TEXT_LENGTH < length (snd st) + length ?t + 1"
    | "?t \<noteq> []" "length ?t \<le> MAX_TEXT_LENGTH" "length (snd st) + length ?t + 1 \<le> MAX_TEXT_LENGTH"
    by linarith
  then show ?thesis
  proof cases
    case 1
    then have "nonWhitespace ?t = []" by (simp add: nonWhitespace_def)
    with 1 t show ?thesis by (simp add: processSentence_def Let_def)
  next
    case 2
    then show ?thesis
      using t by (simp add: processSentence_def Let_def nonWhitespace_append nonWhitespace_flush
          concat_forceSplit)
  next
    case 3
    then show ?thesis
      using t by (simp add: processSentence_def Let_def nonWhitespace_append nonWhitespace_flush
          nonWhitespace_space)
  next
    case 4
    then show ?thesis
      using t by (simp add: processSentence_def Let_def nonWhitespace_append nonWhitespace_space)
  qed
qed

lemma foldl_processSentence_content:
  "nonWhitespace (concat (fst (foldl processSentence st sentences)) @
     snd (foldl processSentence st sentences)) =
   nonWhitespace (concat (fst st) @ snd st) @ nonWhitespace (concat sentences)"
proof (induction sentences arbitrary: st)
  case Nil
  show ?case by (simp add: nonWhitespace_def)
next
  case (Cons x xs)
  let ?st = "processSentence st x"
  have "nonWhitespace (concat (fst (foldl processSentence st (x # xs))) @
      snd (foldl processSentence st (x # xs))) =
    nonWhitespace (concat (fst (foldl processSentence ?st xs)) @ snd (foldl processSentence ?st xs))"
    by simp
  also have "\<dots> = nonWhitespace (concat (fst ?st) @ snd ?st) @ nonWhitespace (concat xs)"
    by (rule Cons.IH)
  also have "\<dots> = (nonWhitespace (concat (fst st) @ snd st) @ nonWhitespace x) @
      nonWhitespace (concat xs)"
    by (simp only: processSentence_content)
  finally show ?case by (simp add: nonWhitespace_append)
qed

lemma chunkText_content:
  "nonWhitespace (concat (chunkText text)) =
     (if length (trim text) \<le> MAX_TEXT_LENGTH then nonWhitespace text
      else nonWhitespace (dropWhile isTerminator (trim text)))"
proof (cases "length (trim text) \<le> MAX_TEXT_LENGTH")
  case True
  show ?thesis
  proof (cases "trim text = []")
    case e: True
    then have "nonWhitespace (trim text) = []" by (simp add: nonWhitespace_def)
    then have "nonWhitespace text = []" by (simp add: nonWhitespace_trim)
    with e True show ?thesis by (simp add: chunkText_def nonWhitespace_def)
  next
    case False
    with True show ?thesis by (simp add: chunkText_def nonWhitespace_trim)
  qed
next
  case False
  let ?st = "foldl processSentence ([], []) (matchSentences (trim text))"
  from False have ne: "trim text \<noteq> []" by auto
  have "nonWhitespace (concat (chunkText text)) = nonWhitespace (concat (flush (fst ?st) (snd ?st)))"
    using False ne by (simp add: chunkText_def Let_def)
  also have "\<dots> = nonWhitespace (concat (fst ?st) @ snd ?st)"
    by (simp add: nonWhitespace_flush nonWhitespace_append)
  also have "\<dots> = nonWhitespace (concat ([] :: jsstring list) @ []) @
      nonWhitespace (concat (matchSentences (trim text)))"
    using foldl_processSentence_content [of "([], [])" "matchSentences (trim text)"]
    by (simp only: fst_conv snd_conv)
  also have "\<dots> = nonWhitespace (concat (matchSentences (trim text)))"
    by (simp add: nonWhitespace_def)
  finally show ?thesis using False by (simp add: concat_matchSentences)
qed

lemma trim_append_whitespace:
  assumes "s \<noteq> []" "\<not> isWhitespace (hd s)" "\<not> isWhitespace (last s)"
    and "\<forall>c\<in>set w. isWhitespace c"
  shows "trim (s @ w) = s"
proof -
  have a: "dropWhile isWhitespace (s @ w) = s @ w"
    using assms(1,2) by (intro dropWhile_hd_id) simp_all
  have "dropWhile isWhitespace (rev w @ rev s) = dropWhile isWhitespace (rev s)"
    using assms(4) by (intro dropWhile_append2) simp
  moreover have "dropWhile isWhitespace (rev s) = rev s"
    using assms(1,3) by (intro dropWhile_hd_id) (simp_all add: hd_rev)
  ultimately show ?thesis by (simp add: trim_def a)
qed

text \<open>
  Claim C3 as stated, with the lengths taken before trimming, fails. A space followed by
  4500 letters \<open>a\<close> is a text of \<open>MAX_TEXT_LENGTH + 1\<close> code units without a terminator,
  and it yields one chunk, the 4500 letters: the chunker trims the text before it
  measures it. Likewise a sentence of 4500 letters followed by ten spaces is longer than
  \<open>MAX_TEXT_LENGTH\<close>, and the loop body does not split it: it flushes the buffer and
  starts a new one with the trimmed sentence.
\<close>

theorem chunkText_trims_before_measuring:
  "length (0x20 # replicate 4500 (0x61 :: code_unit)) = MAX_TEXT_LENGTH + 1 \<and>
   filter isTerminator (0x20 # replicate 4500 0x61) = [] \<and>
   chunkText (0x20 # replicate 4500 0x61) = [replicate 4500 0x61] \<and>
   MAX_TEXT_LENGTH < length (replicate 4500 (0x61 :: code_unit) @ replicate 10 0x20) \<and>
   processSentence ([], [0x48, 0x69, 0x2E, 0x20]) (replicate 4500 0x61 @ replicate 10 0x20) =
     ([[0x48, 0x69, 0x2E]], replicate 4500 0x61 @ [0x20])"
proof -
  let ?a = "replicate 4500 (0x61 :: code_unit)"
  let ?x = "0x20 # ?a"
  let ?u = "?a @ replicate 10 (0x20 :: code_unit)"
  have ta: "trim ?a = ?a" using not_ws_a by (rule trim_replicate)
  have "dropWhile isWhitespace ?x = dropWhile isWhitespace ?a"
    using ws_space by simp
  then have "trim ?x = trim ?a" by (simp only: trim_def)
  then have tx: "trim ?x = ?a" by (simp only: ta)
  have l: "length ?x = MAX_TEXT_LENGTH + 1" by (simp add: MAX_TEXT_LENGTH_def)
  have f: "filter isTerminator ?x = []"
    using not_term_a not_term_space by simp
  have c: "chunkText ?x = [?a]"
    using chunkText_short [of ?x] by (simp add: tx MAX_TEXT_LENGTH_def)
  have m: "MAX_TEXT_LENGTH < length ?u" by (simp add: MAX_TEXT_LENGTH_def)
  have tu: "trim ?u = ?a"
    using not_ws_a ws_space by (intro trim_append_whitespace) simp_all
  have fl: "flush [] [0x48, 0x69, 0x2E, 0x20] = [[0x48, 0x69, 0x2E :: code_unit]]"
    by (simp add: flush_def trim_def isWhitespace_def)
  have p: "processSentence ([], [0x48, 0x69, 0x2E, 0x20]) ?u = ([[0x48, 0x69, 0x2E]], ?a @ [0x20])"
    by (simp add: processSentence_def Let_def tu fl MAX_TEXT_LENGTH_def)
  from l f c m p show ?thesis by (simp only: simp_thms)
qed

section \<open>Properties of the sanitizer\<close>

lemma codePoints_Cons_nonhigh:
  "\<not> isHighSurrogate c \<Longrightarrow> codePoints (c # ys) = unat c # codePoints ys"
  by (cases ys) simp_all

lemma wellFormed_Cons_nonhigh:
  "\<not> isHighSurrogate c \<Longrightarrow> wellFormed (c # ys) \<longleftrightarrow> \<not> isLowSurrogate c \<and> wellFormed ys"
  by (cases ys) simp_all

lemma not_both_surrogates: "isHighSurrogate c \<Longrightarrow> \<not> isLowSurrogate c"
  by (simp add: isHighSurrogate_def isLowSurrogate_def word_le_nat_alt)

lemma sanitizeText_wellFormed:
  "wellFormed s \<Longrightarrow> wellFormed (sanitizeText cf s)"
proof (induction cf s rule: sanitizeText.induct)
  case (3 cf c d r)
  show ?case
  proof (cases "isHighSurrogate c")
    case True
    with "3.prems" have d: "isLowSurrogate d" and r: "wellFormed r" by simp_all
    have "wellFormed (sanitizeText cf r)"
      by (cases "removedClass cf (codePointOfPair c d)") (use "3.IH"(1,2) True d r in simp_all)
    with True d show ?thesis by simp
  next
    case False
    with "3.prems" have c: "\<not> isLowSurrogate c" and r: "wellFormed (d # r)" by simp_all
    have "wellFormed (sanitizeText cf (d # r))"
      by (cases "removedClass cf (unat c)") (use "3.IH"(3,4) False r in simp_all)
    with False c show ?thesis by (simp add: wellFormed_Cons_nonhigh)
  qed
qed simp_all

lemma codePoints_sanitizeText:
  "wellFormed s \<Longrightarrow>
     codePoints (sanitizeText cf s) = filter (\<lambda>cp. \<not> removedClass cf cp) (codePoints s)"
proof (induction cf s rule: sanitizeText.induct)
  case (3 cf c d r)
  show ?case
  proof (cases "isHighSurrogate c")
    case True
    with "3.prems" have d: "isLowSurrogate d" and r: "wellFormed r" by simp_all
    have "codePoints (sanitizeText cf r) = filter (\<lambda>cp. \<not> removedClass cf cp) (codePoints r)"
      by (cases "removedClass cf (codePointOfPair c d)") (use "3.IH"(1,2) True d r in simp_all)
    with True d show ?thesis by simp
  next
    case False
    with "3.prems" have c: "\<not> isLowSurrogate c" and r: "wellFormed (d # r)" by simp_all
    have "codePoints (sanitizeText cf (d # r)) =
        filter (\<lambda>cp. \<not> removedClass cf cp) (codePoints (d # r))"
      by (cases "removedClass cf (unat c)") (use "3.IH"(3,4) False r in simp_all)
    with False show ?thesis by (simp add: codePoints_Cons_nonhigh)
  qed
qed simp_all

lemma removedClass_shouldStrip:
  assumes "\<forall>cp. cf cp \<longrightarrow> \<not> isControl cp"
  shows "removedClass cf cp \<longleftrightarrow> shouldStrip cf cp"
proof (cases "cf cp")
  case True
  with assms have "\<not> isControl cp" by simp
  then have "cp \<noteq> 0x09 \<and> cp \<noteq> 0x0A \<and> cp \<noteq> 0x0D"
    by (auto simp: isControl_def)
  with True show ?thesis by (simp add: removedClass_def shouldStrip_def)
next
  case False
  have "(cp \<le> 0x08 \<or> cp = 0x0B \<or> cp = 0x0C \<or> (0x0E \<le> cp \<and> cp \<le> 0x1F) \<or> (0x7F \<le> cp \<and> cp \<le> 0x9F))
     \<longleftrightarrow> ((cp \<le> 0x1F \<or> (0x7F \<le> cp \<and> cp \<le> 0x9F)) \<and> cp \<noteq> 0x09 \<and> cp \<noteq> 0x0A \<and> cp \<noteq> 0x0D)"
    by arith
  with False show ?thesis by (simp add: removedClass_def shouldStrip_def isControl_def)
qed

text \<open>
  Claim C5, for strings without unpaired surrogates. Let \<open>cf\<close> be the format category
  of the engine's Unicode tables, disjoint from the control category as the general
  categories are. Then the code points of the sanitized text are exactly the code points
  of the text, in their order, without those that are control or format code points
  other than tab, line feed and carriage return; so none of these is left in the output,
  and no other code point is lost, added or moved. The function is total: it returns a
  string, again without unpaired surrogates, on every such input.
\<close>

theorem sanitizeText_strips_controls_and_formats:
  assumes "wellFormed text" and "\<forall>cp. cf cp \<longrightarrow> \<not> isControl cp"
  shows "codePoints (sanitizeText cf text) = filter (\<lambda>cp. \<not> shouldStrip cf cp) (codePoints text) \<and>
         (\<forall>cp \<in> set (codePoints (sanitizeText cf text)).
            isControl cp \<or> cf cp \<longrightarrow> cp = 0x09 \<or> cp = 0x0A \<or> cp = 0x0D) \<and>
         wellFormed (sanitizeText cf text)"
proof -
  have e: "codePoints (sanitizeText cf text) = filter (\<lambda>cp. \<not> shouldStrip cf cp) (codePoints text)"
    using codePoints_sanitizeText [OF assms(1), of cf] removedClass_shouldStrip [OF assms(2)]
    by simp
  have "\<forall>cp \<in> set (codePoints (sanitizeText cf text)). \<not> shouldStrip cf cp"
    by (simp add: e)
  then have "\<forall>cp \<in> set (codePoints (sanitizeText cf text)).
      isControl cp \<or> cf cp \<longrightarrow> cp = 0x09 \<or> cp = 0x0A \<or> cp = 0x0D"
    unfolding shouldStrip_def by blast
  with e sanitizeText_wellFormed [OF assms(1)] show ?thesis by blast
qed

lemma unicodeCf_ge: "unicodeCf cp \<Longrightarrow> 0xAD \<le> cp"
  unfolding unicodeCf_def by (elim disjE conjE) simp_all

lemma unicodeCf_not_control: "\<forall>cp. unicodeCf cp \<longrightarrow> \<not> isControl cp"
proof (intro allI impI)
  fix cp assume "unicodeCf cp"
  then have "0xAD \<le> cp" by (rule unicodeCf_ge)
  then show "\<not> isControl cp" by (simp add: isControl_def)
qed

lemma sample_wellFormed: "wellFormed [0x41, 0x200B, 0x09, 0x01, 0xD83D, 0xDE00, 0xDB40, 0xDC01, 0x42]"
  by (simp add: isHighSurrogate_def isLowSurrogate_def word_le_nat_alt)

lemma sample_codePoints: "codePoints [0x41, 0x200B, 0x09, 0x01, 0xD83D, 0xDE00, 0xDB40, 0xDC01, 0x42] = [0x41, 0x200B, 0x09, 0x01, 0x1F600, 0xE0001, 0x42]" 
  by (simp add: isHighSurrogate_def isLowSurrogate_def codePointOfPair_def word_le_nat_alt)

lemma sample_filter: "filter (\<lambda>cp. \<not> shouldStrip unicodeCf cp) [0x41, 0x200B, 0x09, 0x01, 0x1F600, 0xE0001, 0x42]
      = [0x41, 0x09, 0x1F600, 0x42]"
  by (simp add: shouldStrip_def unicodeCf_def isControl_def)

theorem sanitizeText_strips_controls_and_formats_witness:
  "wellFormed [0x41, 0x200B, 0x09, 0x01, 0xD83D, 0xDE00, 0xDB40, 0xDC01, 0x42] \<and>
   codePoints (sanitizeText unicodeCf [0x41, 0x200B, 0x09, 0x01, 0xD83D, 0xDE00, 0xDB40, 0xDC01, 0x42])
     = [0x41, 0x09, 0x1F600, 0x42]"
  using sanitizeText_strips_controls_and_formats [OF sample_wellFormed unicodeCf_not_control] sample_wellFormed
  by (simp only: sample_codePoints sample_filter)

text \<open>
  Claim C5 as stated, for every string, fails on unpaired surrogates. Between the high
  surrogate U+D834 and the low surrogate U+DD73 stands the control U+0001: the pattern
  reads three code points, removes the middle one, and the two surrogates left side by
  side are the code point U+1D173, a format character that the input did not hold.
\<close>

theorem sanitizeText_unpaired_surrogates:
  "codePoints [0xD834, 0x01, 0xDD73] = [0xD834, 0x01, 0xDD73] \<and>
   codePoints (sanitizeText unicodeCf [0xD834, 0x01, 0xDD73]) = [0x1D173] \<and>
   unicodeCf 0x1D173"
  by (simp add: isHighSurrogate_def isLowSurrogate_def codePointOfPair_def word_le_nat_alt
      removedClass_def unicodeCf_def)

section \<open>Properties of the synthesis client and of the playback hook\<close>

lemma find_mark_stopped:
  "find (\<lambda>m. node_id m = i)
     (map (\<lambda>n. if node_id n = i then n\<lparr>node_stopped := True\<rparr> else n) ns) =
   map_option (\<lambda>n. n\<lparr>node_stopped := True\<rparr>) (find (\<lambda>m. node_id m = i) ns)"
  by (induction ns) simp_all

lemma remove1_mark_stopped:
  "find (\<lambda>m. node_id m = i) ns = Some n \<Longrightarrow>
   remove1 (n\<lparr>node_stopped := True\<rparr>)
     (map (\<lambda>n. if node_id n = i then n\<lparr>node_stopped := True\<rparr> else n) ns) =
   map (\<lambda>n. if node_id n = i then n\<lparr>node_stopped := True\<rparr> else n) (remove1 n ns)"
proof (induction ns)
  case Nil
  then show ?case by simp
next
  case (Cons x xs)
  show ?case
  proof (cases "node_id x = i")
    case True
    with Cons.prems show ?thesis by simp
  next
    case False
    with Cons.prems have f: "find (\<lambda>m. node_id m = i) xs = Some n" by simp
    then have "node_id n = i" by (auto simp: find_Some_iff)
    with False have "x \<noteq> n" "x \<noteq> n\<lparr>node_stopped := True\<rparr>" by auto
    with False Cons.IH [OF f] show ?thesis by simp
  qed
qed

lemma playToEnd_idle: "liveNodes s = [] \<Longrightarrow> playToEnd s = s"
  by (subst playToEnd.simps) simp

lemma stop_active:
  "sourceNodeRef s = Some i \<Longrightarrow>
   stop s = s\<lparr>isStoppingRef := True,
     liveNodes := map (\<lambda>n. if node_id n = i then n\<lparr>node_stopped := True\<rparr> else n) (liveNodes s)\<rparr>"
  by (simp add: stop_def Let_def)

lemma stop_inactive:
  "sourceNodeRef s = None \<Longrightarrow>
   stop s = s\<lparr>isStoppingRef := True, audioQueueRef := [], isPlaying := False\<rparr>"
  by (simp add: stop_def Let_def)

lemma onended_after_stop:
  assumes "sourceNodeRef s = Some i" "find (\<lambda>m. node_id m = i) (liveNodes s) = Some n"
  shows "onended i (stop s) =
    callOnEnd (node_onEnd n)
      (s\<lparr>isStoppingRef := True,
         liveNodes := map (\<lambda>n. if node_id n = i then n\<lparr>node_stopped := True\<rparr> else n)
           (remove1 n (liveNodes s)),
         audioQueueRef := [], sourceNodeRef := None, isPlaying := False\<rparr>)"
  using assms
  by (simp add: stop_active onended_def find_mark_stopped remove1_mark_stopped playNextInQueue_def)

text \<open>
  Claim C10. When \<open>stop()\<close> is called while \<open>sourceNodeRef\<close> holds a node, it changes
  two things only: the stopping flag is set and the node is asked to stop. The queue
  and \<open>isPlaying\<close> are as they were, so the queue still holds the remaining buffers and
  \<open>isPlaying\<close> is still true if it was. When the \<open>ended\<close> event of that node comes, the
  handler empties the queue and sets \<open>isPlaying\<close> to false.
\<close>

theorem stop_defers_cleanup_to_onended:
  "(sourceNodeRef s = Some i \<longrightarrow>
      stop s = s\<lparr>isStoppingRef := True,
        liveNodes := map (\<lambda>n. if node_id n = i then n\<lparr>node_stopped := True\<rparr> else n) (liveNodes s)\<rparr> \<and>
      audioQueueRef (stop s) = audioQueueRef s \<and>
      isPlaying (stop s) = isPlaying s \<and>
      isStoppingRef (stop s)) \<and>
   (sourceNodeRef s = Some i \<and> find (\<lambda>m. node_id m = i) (liveNodes s) = Some n \<longrightarrow>
      find (\<lambda>m. node_id m = i) (liveNodes (stop s)) = Some (n\<lparr>node_stopped := True\<rparr>) \<and>
      audioQueueRef (onended i (stop s)) = [] \<and>
      \<not> isPlaying (onended i (stop s)))"
proof (intro conjI impI)
  assume a: "sourceNodeRef s = Some i"
  show "stop s = s\<lparr>isStoppingRef := True,
        liveNodes := map (\<lambda>n. if node_id n = i then n\<lparr>node_stopped := True\<rparr> else n) (liveNodes s)\<rparr>"
    using a by (rule stop_active)
  show "audioQueueRef (stop s) = audioQueueRef s" by (simp add: stop_active [OF a])
  show "isPlaying (stop s) = isPlaying s" by (simp add: stop_active [OF a])
  show "isStoppingRef (stop s)" by (simp add: stop_active [OF a])
next
  assume b: "sourceNodeRef s = Some i \<and> find (\<lambda>m. node_id m = i) (liveNodes s) = Some n"
  then have a: "sourceNodeRef s = Some i" and f: "find (\<lambda>m. node_id m = i) (liveNodes s) = Some n"
    by simp_all
  show "find (\<lambda>m. node_id m = i) (liveNodes (stop s)) = Some (n\<lparr>node_stopped := True\<rparr>)"
    by (simp add: stop_active [OF a] find_mark_stopped f)
  show "audioQueueRef (onended i (stop s)) = []"
    by (simp add: onended_after_stop [OF a f] callOnEnd_def split: option.split)
  show "\<not> isPlaying (onended i (stop s))"
    by (simp add: onended_after_stop [OF a f] callOnEnd_def split: option.split)
qed

theorem stop_defers_cleanup_to_onended_witness:
  "sourceNodeRef samplePlaying = Some 0 \<and>
   find (\<lambda>m. node_id m = 0) (liveNodes samplePlaying) = Some sampleNode \<and>
   audioQueueRef (stop samplePlaying) = [20, 30] \<and>
   isPlaying (stop samplePlaying) \<and>
   isStoppingRef (stop samplePlaying) \<and>
   audioQueueRef (onended 0 (stop samplePlaying)) = [] \<and>
   \<not> isPlaying (onended 0 (stop samplePlaying))"
proof -
  have a: "sourceNodeRef samplePlaying = Some 0"
    by (simp add: samplePlaying_def initial_def)
  have f: "find (\<lambda>m. node_id m = 0) (liveNodes samplePlaying) = Some sampleNode"
    by (simp add: samplePlaying_def initial_def sampleNode_def)
  have q: "audioQueueRef samplePlaying = [20, 30]" "isPlaying samplePlaying"
    by (simp_all add: samplePlaying_def initial_def)
  note t = stop_defers_cleanup_to_onended [of samplePlaying 0 sampleNode]
  from t a have 1: "audioQueueRef (stop samplePlaying) = audioQueueRef samplePlaying"
    by blast
  from t a have 2: "isPlaying (stop samplePlaying) = isPlaying samplePlaying"
    by blast
  from t a have 3: "isStoppingRef (stop samplePlaying)"
    by blast
  from t a f have 4: "audioQueueRef (onended 0 (stop samplePlaying)) = []"
    by blast
  from t a f have 5: "\<not> isPlaying (onended 0 (stop samplePlaying))"
    by blast
  from a f q 1 2 3 4 5 show ?thesis by (simp only: simp_thms)
qed

text \<open>
  Claim C9. When \<open>stop()\<close> is called while one buffer is playing, whose node holds the
  callback \<open>c\<close>, the only event left is the \<open>ended\<close> event of that node: after it no
  node is live, no buffer was started beyond those started before, the queue is empty,
  \<open>isPlaying\<close> is false and \<open>onEnd\<close> was called exactly once more. When no node is held,
  \<open>stop()\<close> sets the flag, empties the queue and sets \<open>isPlaying\<close> to false at once; on
  the initial state of the hook this changes the flag only: no error is set, nothing is
  played and no callback is called.
\<close>

theorem stop_ends_playback_once:
  "(sourceNodeRef s = Some (node_id n) \<and> liveNodes s = [n] \<and> node_onEnd n = Some c \<longrightarrow>
      playToEnd (stop s) = onended (node_id n) (stop s) \<and>
      startedBuffers (playToEnd (stop s)) = startedBuffers s \<and>
      onEndCalls (playToEnd (stop s)) = onEndCalls s @ [c] \<and>
      liveNodes (playToEnd (stop s)) = [] \<and>
      audioQueueRef (playToEnd (stop s)) = [] \<and>
      \<not> isPlaying (playToEnd (stop s))) \<and>
   (sourceNodeRef s = None \<longrightarrow>
      stop s = s\<lparr>isStoppingRef := True, audioQueueRef := [], isPlaying := False\<rparr>) \<and>
   stop (initial :: 'b tts) = initial\<lparr>isStoppingRef := True\<rparr> \<and>
   error (stop (initial :: 'b tts)) = None \<and>
   \<not> isPlaying (stop (initial :: 'b tts)) \<and>
   audioQueueRef (stop (initial :: 'b tts)) = [] \<and>
   onEndCalls (stop (initial :: 'b tts)) = [] \<and>
   startedBuffers (stop (initial :: 'b tts)) = []"
proof (intro conjI impI)
  assume h: "sourceNodeRef s = Some (node_id n) \<and> liveNodes s = [n] \<and> node_onEnd n = Some c"
  then have a: "sourceNodeRef s = Some (node_id n)" and l: "liveNodes s = [n]"
    and c: "node_onEnd n = Some c" by simp_all
  have f: "find (\<lambda>m. node_id m = node_id n) (liveNodes s) = Some n" by (simp add: l)
  let ?t = "onended (node_id n) (stop s)"
  have t: "?t = s\<lparr>isStoppingRef := True, liveNodes := [], sourceNodeRef := None,
      audioQueueRef := [], isPlaying := False, onEndCalls := onEndCalls s @ [c]\<rparr>"
    by (simp add: onended_after_stop [OF a f] callOnEnd_def c l)
  have "liveNodes (stop s) \<noteq> []" by (simp add: stop_active [OF a] l)
  then have "playToEnd (stop s) = playToEnd (fireEnded (stop s))"
    by (subst playToEnd.simps) simp
  also have "fireEnded (stop s) = ?t"
    by (simp add: fireEnded_def stop_active [OF a] l)
  also have "playToEnd ?t = ?t" by (rule playToEnd_idle) (simp add: t)
  finally show p: "playToEnd (stop s) = ?t" .
  show "startedBuffers (playToEnd (stop s)) = startedBuffers s" by (simp add: p t)
  show "onEndCalls (playToEnd (stop s)) = onEndCalls s @ [c]" by (simp add: p t)
  show "liveNodes (playToEnd (stop s)) = []" by (simp add: p t)
  show "audioQueueRef (playToEnd (stop s)) = []" by (simp add: p t)
  show "\<not> isPlaying (playToEnd (stop s))" by (simp add: p t)
next
  assume "sourceNodeRef s = None"
  then show "stop s = s\<lparr>isStoppingRef := True, audioQueueRef := [], isPlaying := False\<rparr>"
    by (rule stop_inactive)
qed (simp_all add: stop_def initial_def)

theorem stop_ends_playback_once_witness:
  "sourceNodeRef samplePlaying = Some (node_id sampleNode) \<and>
   liveNodes samplePlaying = [sampleNode] \<and>
   node_onEnd sampleNode = Some 7 \<and>
   startedBuffers (playToEnd (stop samplePlaying)) = [10] \<and>
   onEndCalls (playToEnd (stop samplePlaying)) = [7] \<and>
   audioQueueRef (playToEnd (stop samplePlaying)) = [] \<and>
   sourceNodeRef (initial :: nat tts) = None \<and>
   stop (initial :: nat tts) =
     initial\<lparr>isStoppingRef := True, audioQueueRef := [], isPlaying := False\<rparr> \<and>
   stop (initial :: nat tts) = initial\<lparr>isStoppingRef := True\<rparr>"
proof -
  have a: "sourceNodeRef samplePlaying = Some (node_id sampleNode)"
    "liveNodes samplePlaying = [sampleNode]" "node_onEnd sampleNode = Some 7"
    "startedBuffers samplePlaying = [10]" "onEndCalls samplePlaying = []"
    by (simp_all add: samplePlaying_def initial_def sampleNode_def)
  have b: "sourceNodeRef (initial :: nat tts) = None" by (simp add: initial_def)
  note t = stop_ends_playback_once [of samplePlaying sampleNode 7]
  from t a(1-3) have 1: "startedBuffers (playToEnd (stop samplePlaying)) = startedBuffers samplePlaying"
    by blast
  from t a(1-3) have 2: "onEndCalls (playToEnd (stop samplePlaying)) = onEndCalls samplePlaying @ [7]"
    by blast
  from t a(1-3) have 3: "audioQueueRef (playToEnd (stop samplePlaying)) = []"
    by blast
  from t have 4: "stop (initial :: nat tts) = initial\<lparr>isStoppingRef := True\<rparr>"
    by blast
  note u = stop_ends_playback_once [of "initial :: nat tts" sampleNode 7]
  from u b have 5: "stop (initial :: nat tts) =
      initial\<lparr>isStoppingRef := True, audioQueueRef := [], isPlaying := False\<rparr>"
    by blast
  from a b 1 2 3 4 5 show ?thesis by (simp only: simp_thms append_Nil)
qed

lemma onEndCalls_callOnEnd: "onEndCalls (callOnEnd cb s) = onEndCalls s @ cbList cb"
  by (simp add: callOnEnd_def cbList_def split: option.split)

lemma callOnEnd_fields:
  "liveNodes (callOnEnd cb s) = liveNodes s"
  "audioQueueRef (callOnEnd cb s) = audioQueueRef s"
  "startedBuffers (callOnEnd cb s) = startedBuffers s"
  "isPlaying (callOnEnd cb s) = isPlaying s"
  "isStoppingRef (callOnEnd cb s) = isStoppingRef s"
  "sourceNodeRef (callOnEnd cb s) = sourceNodeRef s"
  "error (callOnEnd cb s) = error s"
  "isLoading (callOnEnd cb s) = isLoading s"
  by (simp_all add: callOnEnd_def split: option.split)

lemma playingAt_start:
  assumes "audioQueueRef s = bufs" "bufs \<noteq> []" "\<not> isStoppingRef s" "liveNodes s = []"
  shows "playingAt bufs cb s 0 (playNextInQueue cb s)"
proof -
  from assms(1,2) obtain b rest where b: "audioQueueRef s = b # rest" "bufs = b # rest"
    by (cases bufs) auto
  show ?thesis
    using assms(3,4) by (simp add: playingAt_def playNextInQueue_def b)
qed

lemma fireEnded_single:
  assumes "liveNodes t = [n]"
  shows "fireEnded t = playNextInQueue (node_onEnd n) (t\<lparr>liveNodes := [], sourceNodeRef := None\<rparr>)"
  using assms by (simp add: fireEnded_def onended_def)

lemma playingAt_step:
  assumes "playingAt bufs cb s k t" "Suc k < length bufs"
  shows "playingAt bufs cb s (Suc k) (fireEnded t)"
proof -
  from assms(1) obtain n where n: "liveNodes t = [n]"
    by (cases "liveNodes t") (auto simp: playingAt_def)
  from assms(1) n have cb: "node_onEnd n = cb" by (simp add: playingAt_def)
  from assms(2) have d: "drop (Suc k) bufs = bufs ! Suc k # drop (Suc (Suc k)) bufs"
    by (simp add: Cons_nth_drop_Suc)
  from assms(2) have tk: "take (Suc (Suc k)) bufs = take (Suc k) bufs @ [bufs ! Suc k]"
    by (simp add: take_Suc_conv_app_nth)
  from assms(1) have q: "audioQueueRef t = bufs ! Suc k # drop (Suc (Suc k)) bufs"
    by (simp add: playingAt_def d)
  from assms(1) have r: "\<not> isStoppingRef t" "startedBuffers t = startedBuffers s @ take (Suc k) bufs"
    "onEndCalls t = onEndCalls s" "isPlaying t = isPlaying s"
    by (simp_all add: playingAt_def)
  show ?thesis
    unfolding playingAt_def fireEnded_single [OF n] cb
    by (simp add: playNextInQueue_def q r tk)
qed

lemma playingAt_funpow:
  assumes "playingAt bufs cb s 0 t" and "k < length bufs"
  shows "playingAt bufs cb s k ((fireEnded ^^ k) t)"
  using assms(2)
proof (induction k)
  case 0
  show ?case using assms(1) by simp
next
  case (Suc k)
  then have "playingAt bufs cb s k ((fireEnded ^^ k) t)" by simp
  from playingAt_step [OF this Suc.prems] show ?case by simp
qed

lemma playingAt_last:
  assumes "playingAt bufs cb s k t" "Suc k = length bufs"
  shows "liveNodes (fireEnded t) = []"
    and "audioQueueRef (fireEnded t) = []"
    and "startedBuffers (fireEnded t) = startedBuffers s @ bufs"
    and "onEndCalls (fireEnded t) = onEndCalls s @ cbList cb"
    and "\<not> isPlaying (fireEnded t)"
    and "sourceNodeRef (fireEnded t) = None"
proof -
  from assms(1) obtain n where n: "liveNodes t = [n]"
    by (cases "liveNodes t") (auto simp: playingAt_def)
  from assms(1) n have cb: "node_onEnd n = cb" by (simp add: playingAt_def)
  from assms have q: "audioQueueRef t = []" by (simp add: playingAt_def)
  from assms have r: "\<not> isStoppingRef t" "startedBuffers t = startedBuffers s @ bufs"
    "onEndCalls t = onEndCalls s"
    by (simp_all add: playingAt_def)
  have f: "fireEnded t = callOnEnd cb (t\<lparr>liveNodes := [], isPlaying := False, sourceNodeRef := None\<rparr>)"
    unfolding fireEnded_single [OF n] cb by (simp add: playNextInQueue_def q r)
  show "liveNodes (fireEnded t) = []" by (simp add: f callOnEnd_fields)
  show "audioQueueRef (fireEnded t) = []" by (simp add: f callOnEnd_fields q)
  show "startedBuffers (fireEnded t) = startedBuffers s @ bufs" by (simp add: f callOnEnd_fields r)
  show "onEndCalls (fireEnded t) = onEndCalls s @ cbList cb" by (simp add: f onEndCalls_callOnEnd r)
  show "\<not> isPlaying (fireEnded t)" by (simp add: f callOnEnd_fields)
  show "sourceNodeRef (fireEnded t) = None" by (simp add: f callOnEnd_fields)
qed

lemma playToEnd_funpow:
  assumes "\<And>j. j < k \<Longrightarrow> liveNodes ((fireEnded ^^ j) t) \<noteq> []"
    and "liveNodes ((fireEnded ^^ k) t) = []"
  shows "playToEnd t = (fireEnded ^^ k) t"
  using assms
proof (induction k arbitrary: t)
  case 0
  then show ?case by (simp add: playToEnd_idle)
next
  case (Suc k)
  from Suc.prems(1) [of 0] have "liveNodes t \<noteq> []" by simp
  then have "playToEnd t = playToEnd (fireEnded t)"
    by (subst playToEnd.simps) simp
  also have "\<dots> = (fireEnded ^^ k) (fireEnded t)"
  proof (rule Suc.IH)
    fix j assume "j < k"
    then show "liveNodes ((fireEnded ^^ j) (fireEnded t)) \<noteq> []"
      using Suc.prems(1) [of "Suc j"] by (simp add: funpow_swap1)
  next
    show "liveNodes ((fireEnded ^^ k) (fireEnded t)) = []"
      using Suc.prems(2) by (simp add: funpow_swap1)
  qed
  finally show ?case by (simp add: funpow_swap1)
qed

lemma playingAt_live: "playingAt bufs cb s k t \<Longrightarrow> liveNodes t \<noteq> []"
  by (auto simp: playingAt_def)

lemma play_through:
  assumes "playingAt bufs cb s 0 t" and "bufs \<noteq> []"
  shows "playToEnd t = (fireEnded ^^ length bufs) t"
    and "liveNodes (playToEnd t) = []"
    and "audioQueueRef (playToEnd t) = []"
    and "startedBuffers (playToEnd t) = startedBuffers s @ bufs"
    and "onEndCalls (playToEnd t) = onEndCalls s @ cbList cb"
    and "\<not> isPlaying (playToEnd t)"
    and "sourceNodeRef (playToEnd t) = None"
proof -
  from assms(2) obtain k where k: "length bufs = Suc k" by (cases bufs) auto
  have p: "playingAt bufs cb s k ((fireEnded ^^ k) t)"
    using assms(1) by (rule playingAt_funpow) (simp add: k)
  have e: "(fireEnded ^^ length bufs) t = fireEnded ((fireEnded ^^ k) t)"
    by (simp add: k)
  note l = playingAt_last [OF p k [symmetric]]
  show pe: "playToEnd t = (fireEnded ^^ length bufs) t"
  proof (rule playToEnd_funpow)
    fix j assume "j < length bufs"
    with assms(1) have "playingAt bufs cb s j ((fireEnded ^^ j) t)" by (rule playingAt_funpow)
    then show "liveNodes ((fireEnded ^^ j) t) \<noteq> []" by (rule playingAt_live)
  next
    show "liveNodes ((fireEnded ^^ length bufs) t) = []" unfolding e by (rule l)
  qed
  show "liveNodes (playToEnd t) = []" unfolding pe e by (rule l)
  show "audioQueueRef (playToEnd t) = []" unfolding pe e by (rule l)
  show "startedBuffers (playToEnd t) = startedBuffers s @ bufs" unfolding pe e by (rule l)
  show "onEndCalls (playToEnd t) = onEndCalls s @ cbList cb" unfolding pe e by (rule l)
  show "\<not> isPlaying (playToEnd t)" unfolding pe e by (rule l)
  show "sourceNodeRef (playToEnd t) = None" unfolding pe e by (rule l)
qed


lemma stop_keeps:
  "onEndCalls (stop s) = onEndCalls s"
  "startedBuffers (stop s) = startedBuffers s"
  "liveNodes s = [] \<Longrightarrow> liveNodes (stop s) = []"
  by (simp_all add: stop_def Let_def split: option.split)

lemma prologue_fields:
  "onEndCalls (prologue opts s) = onEndCalls s"
  "startedBuffers (prologue opts s) = startedBuffers s"
  "liveNodes s = [] \<Longrightarrow> liveNodes (prologue opts s) = []"
  "\<not> isStoppingRef (prologue opts s)"
  "error (prologue opts s) = None"
  by (simp_all add: prologue_def stop_keeps)

lemma speak_blank:
  assumes "trim text = []"
  shows "speak e text opts s = ((callOnEnd (onEnd opts) (prologue opts s))\<lparr>isLoading := False\<rparr>, [])"
  using assms by (simp add: speak_def speak_begin_def speak_resume_def Let_def)

lemma speak_synthesis_failed:
  assumes "trim text \<noteq> []" and "generateSpeech e text = (Inl err, sent)"
  shows "speak e text opts s = ((speak_catch err opts (prologue opts s))\<lparr>isLoading := False\<rparr>, sent)"
  using assms by (simp add: speak_def speak_begin_def speak_resume_def Let_def)

lemma speak_decode_failed:
  assumes "trim text \<noteq> []" and "generateSpeech e text = (Inr payloads, sent)"
    and "decodeAll (decodeAudio e) payloads = Inl err"
  shows "speak e text opts s =
    ((speak_catch err opts ((prologue opts s)\<lparr>audioContextRef := True\<rparr>))\<lparr>isLoading := False\<rparr>, sent)"
  using assms by (simp add: speak_def speak_begin_def speak_resume_def Let_def)

lemma speak_decoded:
  assumes "trim text \<noteq> []" and "generateSpeech e text = (Inr payloads, sent)"
    and "decodeAll (decodeAudio e) payloads = Inr bufs"
  shows "speak e text opts s =
    ((if bufs \<noteq> []
      then playNextInQueue (onEnd opts)
             ((prologue opts s)\<lparr>audioContextRef := True, audioQueueRef := bufs, isPlaying := True\<rparr>)
      else callOnEnd (onEnd opts)
             ((prologue opts s)\<lparr>audioContextRef := True, audioQueueRef := bufs\<rparr>))\<lparr>isLoading := False\<rparr>, sent)"
  using assms by (simp add: speak_def speak_begin_def speak_resume_def Let_def)

lemma speak_catch_fields:
  "onEndCalls (speak_catch err opts s) = onEndCalls s @ cbList (onEnd opts)"
  "startedBuffers (speak_catch err opts s) = startedBuffers s"
  "liveNodes (speak_catch err opts s) = liveNodes s"
  "error (speak_catch err opts s) = Some (thrownMessage err)"
  "\<not> isPlaying (speak_catch err opts s)"
  "audioQueueRef (speak_catch err opts s) = []"
  by (simp_all add: speak_catch_def onEndCalls_callOnEnd callOnEnd_fields thrownMessage_def)

lemma playingAt_isLoading:
  "playingAt bufs cb s k t \<Longrightarrow> playingAt bufs cb s k (t\<lparr>isLoading := b\<rparr>)"
  by (simp add: playingAt_def)

lemma speak_playback:
  assumes "liveNodes s = []" and "trim text \<noteq> []"
    and "generateSpeech e text = (Inr payloads, sent)"
    and "decodeAll (decodeAudio e) payloads = Inr bufs"
  shows "onEndCalls (playToEnd (fst (speak e text opts s))) = onEndCalls s @ cbList (onEnd opts)"
    and "startedBuffers (playToEnd (fst (speak e text opts s))) = startedBuffers s @ bufs"
    and "liveNodes (playToEnd (fst (speak e text opts s))) = []"
    and "bufs \<noteq> [] \<Longrightarrow> onEndCalls (fst (speak e text opts s)) = onEndCalls s"
    and "bufs \<noteq> [] \<Longrightarrow> startedBuffers (fst (speak e text opts s)) = startedBuffers s @ [hd bufs]"
    and "error (fst (speak e text opts s)) = None"
proof -
  let ?p = "prologue opts s"
  let ?q = "?p\<lparr>audioContextRef := True, audioQueueRef := bufs, isPlaying := True\<rparr>"
  note sp = speak_decoded [OF assms(2,3,4), where opts=opts and s=s]
  note pf = prologue_fields [where opts=opts and s=s]
  show "error (fst (speak e text opts s)) = None"
    by (cases bufs)
      (simp_all add: sp callOnEnd_fields pf playNextInQueue_def)
  have "onEndCalls (playToEnd (fst (speak e text opts s))) = onEndCalls s @ cbList (onEnd opts) \<and>
        startedBuffers (playToEnd (fst (speak e text opts s))) = startedBuffers s @ bufs \<and>
        liveNodes (playToEnd (fst (speak e text opts s))) = []"
  proof (cases "bufs = []")
    case True
    have l: "liveNodes (fst (speak e text opts s)) = []"
      using True assms(1) by (simp add: sp callOnEnd_fields pf)
    show ?thesis
      unfolding playToEnd_idle [OF l]
      using True assms(1) by (simp add: sp callOnEnd_fields onEndCalls_callOnEnd pf)
  next
    case False
    have "playingAt bufs (onEnd opts) ?q 0 (playNextInQueue (onEnd opts) ?q)"
      by (rule playingAt_start) (use False assms(1) pf in simp_all)
    then have "playingAt bufs (onEnd opts) ?q 0 (fst (speak e text opts s))"
      using False by (simp add: sp playingAt_isLoading)
    from play_through [OF this False] show ?thesis by (simp add: pf)
  qed
  then show "onEndCalls (playToEnd (fst (speak e text opts s))) = onEndCalls s @ cbList (onEnd opts)"
    and "startedBuffers (playToEnd (fst (speak e text opts s))) = startedBuffers s @ bufs"
    and "liveNodes (playToEnd (fst (speak e text opts s))) = []"
    by simp_all
  assume ne: "bufs \<noteq> []"
  then obtain b rest where b: "bufs = b # rest" by (cases bufs) auto
  show "onEndCalls (fst (speak e text opts s)) = onEndCalls s"
    by (simp add: sp b playNextInQueue_def pf)
  show "startedBuffers (fst (speak e text opts s)) = startedBuffers s @ [hd bufs]"
    by (simp add: sp b playNextInQueue_def pf)
qed

lemma speak_outcomes:
  assumes "liveNodes s = []" and "onEnd opts = Some cb"
  shows "onEndCalls (playToEnd (fst (speak e text opts s))) = onEndCalls s @ [cb] \<and>
    liveNodes (playToEnd (fst (speak e text opts s))) = [] \<and>
    (trim text = [] \<longrightarrow>
       onEndCalls (fst (speak e text opts s)) = onEndCalls s @ [cb] \<and>
       startedBuffers (fst (speak e text opts s)) = startedBuffers s \<and>
       error (fst (speak e text opts s)) = None \<and>
       snd (speak e text opts s) = []) \<and>
    (trim text \<noteq> [] \<and> fst (generateSpeech e text) = Inl err \<longrightarrow>
       onEndCalls (fst (speak e text opts s)) = onEndCalls s @ [cb] \<and>
       startedBuffers (fst (speak e text opts s)) = startedBuffers s \<and>
       error (fst (speak e text opts s)) = Some (thrownMessage err)) \<and>
    (trim text \<noteq> [] \<and> fst (generateSpeech e text) = Inr payloads \<and>
     decodeAll (decodeAudio e) payloads = Inl err \<longrightarrow>
       onEndCalls (fst (speak e text opts s)) = onEndCalls s @ [cb] \<and>
       startedBuffers (fst (speak e text opts s)) = startedBuffers s \<and>
       error (fst (speak e text opts s)) = Some (thrownMessage err)) \<and>
    (trim text \<noteq> [] \<and> fst (generateSpeech e text) = Inr payloads \<and>
     decodeAll (decodeAudio e) payloads = Inr bufs \<longrightarrow>
       startedBuffers (playToEnd (fst (speak e text opts s))) = startedBuffers s @ bufs \<and>
       error (fst (speak e text opts s)) = None \<and>
       (bufs \<noteq> [] \<longrightarrow> onEndCalls (fst (speak e text opts s)) = onEndCalls s))"
proof -
  note pf = prologue_fields [where opts=opts and s=s]
  have cb: "cbList (onEnd opts) = [cb]" by (simp add: cbList_def assms(2))
  obtain r sent where g: "generateSpeech e text = (r, sent)" by (cases "generateSpeech e text")
  have blank: "onEndCalls (fst (speak e text opts s)) = onEndCalls s @ [cb] \<and>
       startedBuffers (fst (speak e text opts s)) = startedBuffers s \<and>
       error (fst (speak e text opts s)) = None \<and>
       snd (speak e text opts s) = [] \<and>
       liveNodes (fst (speak e text opts s)) = []" if "trim text = []"
    using assms(1) by (simp add: speak_blank [OF that] onEndCalls_callOnEnd callOnEnd_fields pf cb)
  have synth: "onEndCalls (fst (speak e text opts s)) = onEndCalls s @ [cb] \<and>
       startedBuffers (fst (speak e text opts s)) = startedBuffers s \<and>
       error (fst (speak e text opts s)) = Some (thrownMessage x) \<and>
       liveNodes (fst (speak e text opts s)) = []"
    if "trim text \<noteq> []" "fst (generateSpeech e text) = Inl x" for x
  proof -
    from that(2) g have "generateSpeech e text = (Inl x, sent)" by simp
    from speak_synthesis_failed [OF that(1) this] assms(1)
    show ?thesis by (simp add: speak_catch_fields pf cb)
  qed
  have dec: "onEndCalls (fst (speak e text opts s)) = onEndCalls s @ [cb] \<and>
       startedBuffers (fst (speak e text opts s)) = startedBuffers s \<and>
       error (fst (speak e text opts s)) = Some (thrownMessage x) \<and>
       liveNodes (fst (speak e text opts s)) = []"
    if "trim text \<noteq> []" "fst (generateSpeech e text) = Inr ps" "decodeAll (decodeAudio e) ps = Inl x"
    for x ps
  proof -
    from that(2) g have "generateSpeech e text = (Inr ps, sent)" by simp
    from speak_decode_failed [OF that(1) this that(3)] assms(1)
    show ?thesis by (simp add: speak_catch_fields pf cb)
  qed
  have play: "onEndCalls (playToEnd (fst (speak e text opts s))) = onEndCalls s @ [cb] \<and>
       liveNodes (playToEnd (fst (speak e text opts s))) = [] \<and>
       startedBuffers (playToEnd (fst (speak e text opts s))) = startedBuffers s @ bs \<and>
       error (fst (speak e text opts s)) = None \<and>
       (bs \<noteq> [] \<longrightarrow> onEndCalls (fst (speak e text opts s)) = onEndCalls s)"
    if "trim text \<noteq> []" "fst (generateSpeech e text) = Inr ps" "decodeAll (decodeAudio e) ps = Inr bs"
    for ps bs
  proof -
    from that(2) g have "generateSpeech e text = (Inr ps, sent)" by simp
    from speak_playback [OF assms(1) that(1) this that(3), of opts]
    show ?thesis by (simp add: cb)
  qed
  have main: "onEndCalls (playToEnd (fst (speak e text opts s))) = onEndCalls s @ [cb] \<and>
    liveNodes (playToEnd (fst (speak e text opts s))) = []"
  proof (cases "trim text = []")
    case True
    from blank [OF True] show ?thesis by (simp add: playToEnd_idle)
  next
    case False
    show ?thesis
    proof (cases "fst (generateSpeech e text)")
      case (Inl x)
      from synth [OF False Inl] show ?thesis by (simp add: playToEnd_idle)
    next
      case (Inr ps)
      show ?thesis
      proof (cases "decodeAll (decodeAudio e) ps")
        case (Inl x)
        from dec [OF False Inr Inl] show ?thesis by (simp add: playToEnd_idle)
      next
        case r: (Inr bs)
        from play [OF False Inr r] show ?thesis by simp
      qed
    qed
  qed
  from main blank synth dec play show ?thesis by blast
qed

lemma owed_callOnEnd:
  "owed cb (callOnEnd x s) = owed cb s + (if x = Some cb then 1 else 0)"
  by (cases x) (auto simp: owed_def holding_def callOnEnd_def)

lemma owed_update:
  "liveNodes t = liveNodes s \<Longrightarrow> onEndCalls t = onEndCalls s \<Longrightarrow> owed cb t = owed cb s"
  by (simp add: owed_def holding_def)

lemma owed_playNextInQueue:
  "owed cb (playNextInQueue x s) = owed cb s + (if x = Some cb then 1 else 0)"
proof (cases "isStoppingRef s")
  case True
  then show ?thesis
    by (simp add: playNextInQueue_def owed_callOnEnd) (simp add: owed_def holding_def)
next
  case False
  show ?thesis
  proof (cases "audioQueueRef s")
    case Nil
    with False show ?thesis
      by (simp add: playNextInQueue_def owed_callOnEnd) (simp add: owed_def holding_def)
  next
    case (Cons b rest)
    with False show ?thesis
      by (simp add: playNextInQueue_def owed_def holding_def)
  qed
qed

lemma length_filter_remove1:
  "n \<in> set xs \<Longrightarrow>
   length (filter P (remove1 n xs)) + (if P n then 1 else 0) = length (filter P xs)"
  by (induction xs) auto

lemma owed_onended: "owed cb (onended i s) = owed cb s"
proof (cases "find (\<lambda>n. node_id n = i) (liveNodes s)")
  case None
  then show ?thesis by (simp add: onended_def)
next
  case (Some n)
  then have "n \<in> set (liveNodes s)" by (auto simp: find_Some_iff)
  from length_filter_remove1 [OF this, of "\<lambda>n. node_onEnd n = Some cb"]
  have "owed cb (s\<lparr>liveNodes := remove1 n (liveNodes s), sourceNodeRef := None\<rparr>) +
      (if node_onEnd n = Some cb then 1 else 0) = owed cb s"
    by (simp add: owed_def holding_def)
  with Some show ?thesis by (simp add: onended_def owed_playNextInQueue)
qed

lemma owed_stop: "owed cb (stop s) = owed cb s"
proof -
  have m: "length (filter ((\<lambda>n. node_onEnd n = Some cb) \<circ>
        (\<lambda>n. if node_id n = i then n\<lparr>node_stopped := True\<rparr> else n)) ns) =
    length (filter (\<lambda>n. node_onEnd n = Some cb) ns)" for i and ns :: "'b source_node list"
    by (induction ns) simp_all
  show ?thesis
    by (simp add: stop_def Let_def owed_def holding_def m split: option.split)
qed

lemma owed_prologue: "owed cb (prologue opts s) = owed cb s"
  using owed_stop [of cb s] by (simp add: prologue_def owed_def holding_def)

lemma owed_isLoading: "owed cb (s\<lparr>isLoading := b\<rparr>) = owed cb s"
  by (simp add: owed_def holding_def)

lemma owed_speak_begin:
  "owed cb (fst (speak_begin text opts s)) =
     owed cb s + (if trim text = [] \<and> onEnd opts = Some cb then 1 else 0)"
  by (simp add: speak_begin_def Let_def owed_isLoading owed_callOnEnd owed_prologue)

lemma owed_speak_catch:
  "owed cb (speak_catch err opts s) = owed cb s + (if onEnd opts = Some cb then 1 else 0)"
  by (simp add: speak_catch_def owed_callOnEnd) (simp add: owed_def holding_def)

lemma owed_speak_resume:
  "owed cb (fst (speak_resume e text opts s)) =
     owed cb s + (if onEnd opts = Some cb then 1 else 0)"
proof -
  have a: "owed cb (s\<lparr>audioContextRef := True\<rparr>) = owed cb s"
    by (simp add: owed_def holding_def)
  have b: "owed cb (s\<lparr>audioContextRef := True, audioQueueRef := q\<rparr>) = owed cb s" for q
    by (simp add: owed_def holding_def)
  have c: "owed cb (s\<lparr>audioContextRef := True, audioQueueRef := q, isPlaying := True\<rparr>) = owed cb s" for q
    by (simp add: owed_def holding_def)
  show ?thesis
    by (simp add: speak_resume_def Let_def owed_isLoading owed_speak_catch owed_callOnEnd
        owed_playNextInQueue a b c split: prod.split sum.split)
qed

lemma owed_step: "owed cb (step e ev s) = owed cb s + completes cb ev"
  by (cases ev) (simp_all add: owed_speak_begin owed_speak_resume owed_onended owed_stop)

lemma owed_run: "owed cb (run e events s) = owed cb s + sum_list (map (completes cb) events)"
  unfolding run_def by (induction events arbitrary: s) (simp_all add: owed_step)

lemma owed_speak:
  "owed cb (fst (speak e text opts s)) = owed cb s + (if onEnd opts = Some cb then 1 else 0)"
proof (cases "trim text = []")
  case True
  then have "fst (speak e text opts s) = fst (speak_begin text opts s)"
    by (simp add: speak_def speak_begin_def Let_def)
  with True show ?thesis by (simp add: owed_speak_begin)
next
  case False
  then have "fst (speak e text opts s) = fst (speak_resume e text opts (fst (speak_begin text opts s)))"
    by (simp add: speak_def speak_begin_def Let_def)
  with False show ?thesis by (simp add: owed_speak_resume owed_speak_begin)
qed

lemma owed_fireEnded: "owed cb (fireEnded s) = owed cb s"
  by (cases "liveNodes s") (simp_all add: fireEnded_def owed_onended)

lemma playToEnd_quiet: "liveNodes (playToEnd s) = []"
proof (induction s rule: playToEnd.induct)
  case (1 s)
  show ?case
  proof (cases "liveNodes s = []")
    case True
    then show ?thesis by (subst playToEnd.simps) simp
  next
    case False
    with 1 show ?thesis by (subst playToEnd.simps) simp
  qed
qed

lemma owed_playToEnd: "owed cb (playToEnd s) = owed cb s"
proof (induction s rule: playToEnd.induct)
  case (1 s)
  show ?case
  proof (cases "liveNodes s = []")
    case True
    then show ?thesis by (subst playToEnd.simps) simp
  next
    case False
    with 1 show ?thesis by (subst playToEnd.simps) (simp add: owed_fireEnded)
  qed
qed

lemma count_playToEnd: "count_list (onEndCalls (playToEnd s)) cb = owed cb s"
  using owed_playToEnd [of cb s] by (simp add: owed_def holding_def playToEnd_quiet)

text \<open>
  Claim C1. Every \<open>speak\<close> call leads to exactly one call of its \<open>onEnd\<close>.
  First, \<open>speak\<close> is called with the callback \<open>cb\<close> in any state of the hook and
  playback is then left to itself until no node is live: whatever the text and the
  environment, \<open>cb\<close> was called once for this call, and once for every node that held
  \<open>cb\<close> before the call. Second, for every sequence of \<open>speak\<close> calls, settlements of their
  promises, \<open>ended\<close> events and \<open>stop\<close> calls, from any state: the calls of \<open>cb\<close> made
  plus the live nodes holding \<open>cb\<close> grow by exactly the number of \<open>speak\<close> calls with
  \<open>cb\<close> that reached their end, so no call of \<open>cb\<close> is made twice or lost. Third, the
  outcomes when no node is live at the call. For a text that is empty after trimming,
  \<open>onEnd\<close> is called before \<open>speak\<close> returns, nothing is sent to the remote model and no
  error is set. When the synthesis or the decoding fails, \<open>onEnd\<close> is called before
  \<open>speak\<close> returns and the error state holds the message. When all payloads are
  decoded, no error is set, every buffer is played, and with at least one buffer
  \<open>onEnd\<close> is not yet called when \<open>speak\<close> returns: it is called when the last buffer has
  ended.
\<close>

theorem speak_onEnd_exactly_once:
  "(onEnd opts = Some cb \<longrightarrow>
      count_list (onEndCalls (playToEnd (fst (speak e text opts s)))) cb =
        count_list (onEndCalls s) cb + holding cb s + 1 \<and>
      liveNodes (playToEnd (fst (speak e text opts s))) = []) \<and>
   count_list (onEndCalls (run e events s)) cb + holding cb (run e events s) =
     count_list (onEndCalls s) cb + holding cb s + sum_list (map (completes cb) events) \<and>
   (onEnd opts = Some cb \<and> liveNodes s = [] \<longrightarrow>
      onEndCalls (playToEnd (fst (speak e text opts s))) = onEndCalls s @ [cb] \<and>
      (trim text = [] \<longrightarrow>
         onEndCalls (fst (speak e text opts s)) = onEndCalls s @ [cb] \<and>
         startedBuffers (fst (speak e text opts s)) = startedBuffers s \<and>
         error (fst (speak e text opts s)) = None \<and>
         snd (speak e text opts s) = []) \<and>
      (trim text \<noteq> [] \<and> fst (generateSpeech e text) = Inl err \<longrightarrow>
         onEndCalls (fst (speak e text opts s)) = onEndCalls s @ [cb] \<and>
         startedBuffers (fst (speak e text opts s)) = startedBuffers s \<and>
         error (fst (speak e text opts s)) = Some (thrownMessage err)) \<and>
      (trim text \<noteq> [] \<and> fst (generateSpeech e text) = Inr payloads \<and>
       decodeAll (decodeAudio e) payloads = Inl err \<longrightarrow>
         onEndCalls (fst (speak e text opts s)) = onEndCalls s @ [cb] \<and>
         startedBuffers (fst (speak e text opts s)) = startedBuffers s \<and>
         error (fst (speak e text opts s)) = Some (thrownMessage err)) \<and>
      (trim text \<noteq> [] \<and> fst (generateSpeech e text) = Inr payloads \<and>
       decodeAll (decodeAudio e) payloads = Inr bufs \<longrightarrow>
         startedBuffers (playToEnd (fst (speak e text opts s))) = startedBuffers s @ bufs \<and>
         error (fst (speak e text opts s)) = None \<and>
         (bufs \<noteq> [] \<longrightarrow> onEndCalls (fst (speak e text opts s)) = onEndCalls s)))"
proof -
  have a: "count_list (onEndCalls (playToEnd (fst (speak e text opts s)))) cb =
      count_list (onEndCalls s) cb + holding cb s + 1" if "onEnd opts = Some cb"
    using that by (simp add: count_playToEnd owed_speak) (simp add: owed_def)
  have b: "liveNodes (playToEnd (fst (speak e text opts s))) = []"
    by (rule playToEnd_quiet)
  have c: "count_list (onEndCalls (run e events s)) cb + holding cb (run e events s) =
      count_list (onEndCalls s) cb + holding cb s + sum_list (map (completes cb) events)"
    using owed_run [of cb e events s] by (simp add: owed_def)
  note d = speak_outcomes [of s opts cb e "text" err payloads bufs]
  from a b c d show ?thesis by blast
qed

lemma lit_eq_Nil: "lit cs = [] \<longleftrightarrow> cs = []"
  by (simp add: lit_def)

lemma trim_Hi: "trim (lit ''Hi'') = lit ''Hi''"
  by (simp add: trim_def lit_def isWhitespace_def)

lemma trim_spaces: "trim (lit ''  '') = []"
  by (simp add: trim_def lit_def isWhitespace_def)

lemma chunkText_Hi: "chunkText (lit ''Hi'') = [lit ''Hi'']"
  using trim_Hi by (simp add: chunkText_def Let_def MAX_TEXT_LENGTH_def) (simp add: lit_def)

lemma sanitize_Hi: "trim (sanitizeText unicodeCf (lit ''Hi'')) = lit ''Hi''"
proof -
  have "sanitizeText unicodeCf (lit ''Hi'') = lit ''Hi''"
    by (simp add: lit_def isHighSurrogate_def isLowSurrogate_def removedClass_def unicodeCf_def)
  then show ?thesis by (simp add: trim_Hi)
qed

lemma generateSpeech_sample:
  "generateSpeech sampleEnv (lit ''Hi'') = (Inr [lit ''AAAA''], [lit ''Hi''])"
proof -
  have k: "API_KEY sampleEnv = Some (lit ''key'')" "lit ''key'' \<noteq> []"
    "generateContent sampleEnv = (\<lambda>n t. Inr (Some (lit ''AAAA'')))"
    "formatCategory sampleEnv = unicodeCf" "lit ''AAAA'' \<noteq> []"
    by (simp_all add: sampleEnv_def lit_def)
  show ?thesis
    by (simp add: generateSpeech_def chunkText_Hi Let_def k sanitize_Hi lit_eq_Nil)
qed

lemma includesStr_api_key_message:
  "\<not> includesStr (lit ''api_key environment variable not set'') (lit ''api key not valid'')"
  "\<not> includesStr (lit ''api_key environment variable not set'') (lit ''permission denied'')"
  "\<not> includesStr (lit ''api_key environment variable not set'') (lit ''rate limit'')"
  "\<not> includesStr (lit ''api_key environment variable not set'') (lit ''500'')"
  "\<not> includesStr (lit ''api_key environment variable not set'') (lit ''503'')"
  "\<not> includesStr (lit ''api_key environment variable not set'') (lit ''server error'')"
  "\<not> includesStr (lit ''api_key environment variable not set'') (lit ''rpc failed'')"
  "\<not> includesStr (lit ''api_key environment variable not set'') (lit ''400'')"
  "\<not> includesStr (lit ''api_key environment variable not set'') (lit ''invalid'')"
  by (simp_all add: lit_def)

lemma asciiLower_api_key_message:
  "asciiLower (lit ''API_KEY environment variable not set'') =
     lit ''api_key environment variable not set''"
  by (simp add: asciiLower_def lit_def)

lemma messages_distinct:
  "distinct [msgInvalidKey, msgRateLimit, msgUnavailable, msgBadRequest, msgUnexpected, msgUnknown]"
  by (simp add: msgInvalidKey_def msgRateLimit_def msgUnavailable_def msgBadRequest_def
      msgUnexpected_def msgUnknown_def)

lemma categoryMessage_inj: "categoryMessage c = categoryMessage d \<Longrightarrow> c = d"
  using messages_distinct by (cases c; cases d) simp_all

lemma handleApiError_classify:
  "handleApiError lc (ErrorObj m) = ErrorObj (categoryMessage (classify (lc m)))"
  by (simp add: handleApiError_def classify_def Let_def)

lemma handleApiError_missing_key:
  assumes "lc (lit ''API_KEY environment variable not set'') = lit ''api_key environment variable not set''"
  shows "handleApiError lc (ErrorObj (lit ''API_KEY environment variable not set'')) = ErrorObj msgUnexpected"
  by (simp add: handleApiError_classify assms classify_def includesStr_api_key_message)

lemma synthesizeChunks_abort:
  "synthesizeChunks e chunks audio sent = (r, sent') \<Longrightarrow>
   \<exists>new. sent' = sent @ new \<and>
     (\<forall>j<length new. \<forall>err. generateContent e (length sent + j) (new ! j) = Inl err \<longrightarrow>
         r = Inl err \<and> Suc j = length new)"
proof (induction e chunks audio sent arbitrary: r sent' rule: synthesizeChunks.induct)
  case (1 e audioChunks sent)
  then show ?case by simp
next
  case (2 e chunk rest audioChunks sent)
  let ?c = "trim (sanitizeText (formatCategory e) chunk)"
  show ?case
  proof (cases "?c = []")
    case True
    with "2.prems" have "synthesizeChunks e rest audioChunks sent = (r, sent')"
      by (simp add: Let_def)
    from "2.IH"(1) [OF refl True this] show ?thesis .
  next
    case False
    show ?thesis
    proof (cases "generateContent e (length sent) ?c")
      case (Inl x)
      with False "2.prems" have "r = Inl x" "sent' = sent @ [?c]"
        by (simp_all add: Let_def)
      with Inl show ?thesis by simp
    next
      case (Inr a)
      have "\<exists>new. sent' = (sent @ [?c]) @ new \<and>
        (\<forall>j<length new. \<forall>err. generateContent e (length (sent @ [?c]) + j) (new ! j) = Inl err \<longrightarrow>
           r = Inl err \<and> Suc j = length new)"
      proof (cases "a = None \<or> a = Some []")
        case True
        with False Inr "2.prems"
        have "synthesizeChunks e rest audioChunks (sent @ [?c]) = (r, sent')"
          by (simp add: Let_def)
        from "2.IH"(2) [OF refl False Inr True this] show ?thesis .
      next
        case n: False
        with False Inr "2.prems"
        have "synthesizeChunks e rest (audioChunks @ [the a]) (sent @ [?c]) = (r, sent')"
          by (simp add: Let_def)
        from "2.IH"(3) [OF refl False Inr n this] show ?thesis .
      qed
      then obtain new where new: "sent' = (sent @ [?c]) @ new"
        and p: "\<forall>j<length new. \<forall>err. generateContent e (Suc (length sent) + j) (new ! j) = Inl err \<longrightarrow>
           r = Inl err \<and> Suc j = length new"
        by auto
      have "\<forall>j<length (?c # new). \<forall>err.
          generateContent e (length sent + j) ((?c # new) ! j) = Inl err \<longrightarrow>
          r = Inl err \<and> Suc j = length (?c # new)"
      proof (intro allI impI)
        fix j err
        assume j: "j < length (?c # new)"
          and t: "generateContent e (length sent + j) ((?c # new) ! j) = Inl err"
        show "r = Inl err \<and> Suc j = length (?c # new)"
        proof (cases j)
          case 0
          with t Inr show ?thesis by simp
        next
          case (Suc j')
          with j t p show ?thesis by simp
        qed
      qed
      with new show ?thesis by (intro exI [of _ "?c # new"]) simp
    qed
  qed
qed

lemma generateSpeech_abort:
  assumes "API_KEY e = Some k" and "k \<noteq> []"
    and "i < length (snd (generateSpeech e text))"
    and "generateContent e i (snd (generateSpeech e text) ! i) = Inl err"
  shows "fst (generateSpeech e text) = Inl (handleApiError (toLowerCase e) err)"
    and "Suc i = length (snd (generateSpeech e text))"
proof -
  obtain r sent where s: "synthesizeChunks e (chunkText text) [] [] = (r, sent)"
    by (cases "synthesizeChunks e (chunkText text) [] []")
  have ne: "chunkText text \<noteq> []"
  proof
    assume "chunkText text = []"
    with assms(1,2) have "snd (generateSpeech e text) = []"
      by (simp add: generateSpeech_def)
    with assms(3) show False by simp
  qed
  have g: "snd (generateSpeech e text) = sent"
    "fst (generateSpeech e text) = (case r of Inl x \<Rightarrow> Inl (handleApiError (toLowerCase e) x) | Inr a \<Rightarrow> Inr a)"
    using assms(1,2) ne s by (simp_all add: generateSpeech_def Let_def split: sum.split)
  from synthesizeChunks_abort [OF s] assms(3,4) have "r = Inl err \<and> Suc i = length sent"
    by (simp add: g)
  then show "fst (generateSpeech e text) = Inl (handleApiError (toLowerCase e) err)"
    and "Suc i = length (snd (generateSpeech e text))"
    by (simp_all add: g)
qed

text \<open>
  Claim C6. Without the credential (undefined or the empty string), \<open>generateSpeech\<close>
  rejects for every text with the message of the unknown category, the last branch of
  \<open>handleApiError\<close>, and has sent nothing to the remote model. The lower-casing of the
  engine is taken to map the ASCII message of the thrown error to its lower-case form.
  A \<open>speak\<close> call with a text that is not blank then stores that message in the error
  state, calls \<open>onEnd\<close>, starts no buffer and leaves the hook neither loading nor
  playing.
\<close>

theorem missing_api_key_fails_before_any_request:
  assumes "API_KEY e = None \<or> API_KEY e = Some []"
    and "toLowerCase e (lit ''API_KEY environment variable not set'') =
           lit ''api_key environment variable not set''"
  shows "generateSpeech e text = (Inl (ErrorObj msgUnexpected), []) \<and>
    (trim text \<noteq> [] \<longrightarrow>
       snd (speak e text opts s) = [] \<and>
       error (fst (speak e text opts s)) = Some msgUnexpected \<and>
       onEndCalls (fst (speak e text opts s)) = onEndCalls s @ cbList (onEnd opts) \<and>
       startedBuffers (fst (speak e text opts s)) = startedBuffers s \<and>
       audioQueueRef (fst (speak e text opts s)) = [] \<and>
       \<not> isPlaying (fst (speak e text opts s)) \<and>
       \<not> isLoading (fst (speak e text opts s)))"
proof -
  have g: "generateSpeech e text = (Inl (ErrorObj msgUnexpected), [])"
    using assms(1) by (auto simp: generateSpeech_def handleApiError_missing_key [of "toLowerCase e", OF assms(2)])
  have "snd (speak e text opts s) = [] \<and>
       error (fst (speak e text opts s)) = Some msgUnexpected \<and>
       onEndCalls (fst (speak e text opts s)) = onEndCalls s @ cbList (onEnd opts) \<and>
       startedBuffers (fst (speak e text opts s)) = startedBuffers s \<and>
       audioQueueRef (fst (speak e text opts s)) = [] \<and>
       \<not> isPlaying (fst (speak e text opts s)) \<and>
       \<not> isLoading (fst (speak e text opts s))" if "trim text \<noteq> []"
    by (simp add: speak_synthesis_failed [OF that g] speak_catch_fields prologue_fields
        thrownMessage_def)
  with g show ?thesis by blast
qed

theorem missing_api_key_fails_before_any_request_witness:
  "API_KEY noKeyEnv = None \<and>
   trim (lit ''Hi'') \<noteq> [] \<and>
   generateSpeech noKeyEnv (lit ''Hi'') = (Inl (ErrorObj msgUnexpected), []) \<and>
   snd (speak noKeyEnv (lit ''Hi'') sampleOptions initial) = [] \<and>
   error (fst (speak noKeyEnv (lit ''Hi'') sampleOptions initial)) = Some msgUnexpected \<and>
   onEndCalls (fst (speak noKeyEnv (lit ''Hi'') sampleOptions initial)) = [7]"
proof -
  have a: "API_KEY noKeyEnv = None" by (simp add: noKeyEnv_def sampleEnv_def)
  have b: "toLowerCase noKeyEnv (lit ''API_KEY environment variable not set'') =
      lit ''api_key environment variable not set''"
    by (simp add: noKeyEnv_def sampleEnv_def asciiLower_api_key_message)
  have c: "trim (lit ''Hi'') \<noteq> []" by (simp add: trim_Hi lit_eq_Nil)
  have d: "onEndCalls (initial :: nat tts) @ cbList (onEnd sampleOptions) = [7]"
    by (simp add: initial_def sampleOptions_def cbList_def)
  note t = missing_api_key_fails_before_any_request
    [of noKeyEnv "lit ''Hi''" sampleOptions initial, OF disjI1 [OF a] b]
  from t c have 1: "generateSpeech noKeyEnv (lit ''Hi'') = (Inl (ErrorObj msgUnexpected), [])"
    and 2: "snd (speak noKeyEnv (lit ''Hi'') sampleOptions initial) = []"
    and 3: "error (fst (speak noKeyEnv (lit ''Hi'') sampleOptions initial)) = Some msgUnexpected"
    and 4: "onEndCalls (fst (speak noKeyEnv (lit ''Hi'') sampleOptions initial)) =
      onEndCalls (initial :: nat tts) @ cbList (onEnd sampleOptions)"
    by blast+
  from a c 1 2 3 4 [unfolded d] show ?thesis by (simp only: simp_thms)
qed

text \<open>
  Claim C7. With a credential, whenever a request that \<open>generateSpeech\<close> made threw a
  value, that request was the last one made and the promise is rejected with
  \<open>handleApiError\<close> of that value: no payload is returned. For an \<open>Error\<close> object the
  message of the rejection is the message of exactly one of the five categories, the one
  that the substring tests choose for the lower-cased message; for any other value it is
  the default message. The six messages are different from each other.
\<close>

theorem transport_failure_aborts_and_is_classified:
  "(API_KEY e = Some k \<and> k \<noteq> [] \<and> i < length (snd (generateSpeech e text)) \<and>
    generateContent e i (snd (generateSpeech e text) ! i) = Inl err \<longrightarrow>
      fst (generateSpeech e text) = Inl (handleApiError (toLowerCase e) err) \<and>
      Suc i = length (snd (generateSpeech e text))) \<and>
   handleApiError lc (ErrorObj m) = ErrorObj (categoryMessage (classify (lc m))) \<and>
   (\<exists>!c. handleApiError lc (ErrorObj m) = ErrorObj (categoryMessage c)) \<and>
   handleApiError lc OtherValue = ErrorObj msgUnknown \<and>
   distinct [msgInvalidKey, msgRateLimit, msgUnavailable, msgBadRequest, msgUnexpected, msgUnknown]"
proof (intro conjI impI)
  assume h: "API_KEY e = Some k \<and> k \<noteq> [] \<and> i < length (snd (generateSpeech e text)) \<and>
    generateContent e i (snd (generateSpeech e text) ! i) = Inl err"
  then have 1: "API_KEY e = Some k" and 2: "k \<noteq> []"
    and 3: "i < length (snd (generateSpeech e text))"
    and 4: "generateContent e i (snd (generateSpeech e text) ! i) = Inl err"
    by simp_all
  show "fst (generateSpeech e text) = Inl (handleApiError (toLowerCase e) err)"
    using 1 2 3 4 by (rule generateSpeech_abort)
  show "Suc i = length (snd (generateSpeech e text))"
    using 1 2 3 4 by (rule generateSpeech_abort)
next
  show "handleApiError lc (ErrorObj m) = ErrorObj (categoryMessage (classify (lc m)))"
    by (rule handleApiError_classify)
  show "\<exists>!c. handleApiError lc (ErrorObj m) = ErrorObj (categoryMessage c)"
  proof (rule ex1I [of _ "classify (lc m)"])
    show "handleApiError lc (ErrorObj m) = ErrorObj (categoryMessage (classify (lc m)))"
      by (rule handleApiError_classify)
  next
    fix c
    assume "handleApiError lc (ErrorObj m) = ErrorObj (categoryMessage c)"
    then have "categoryMessage c = categoryMessage (classify (lc m))"
      by (simp add: handleApiError_classify)
    then show "c = classify (lc m)" by (rule categoryMessage_inj)
  qed
  show "handleApiError lc OtherValue = ErrorObj msgUnknown"
    by (simp add: handleApiError_def)
  show "distinct [msgInvalidKey, msgRateLimit, msgUnavailable, msgBadRequest, msgUnexpected, msgUnknown]"
    by (rule messages_distinct)
qed

lemma classify_rate_limit: "classify (asciiLower (lit ''Rate limit exceeded'')) = RateLimited"
  by (simp add: classify_def asciiLower_def lit_def)

lemma generateSpeech_failEnv:
  "generateSpeech failEnv (lit ''Hi'') = (Inl (ErrorObj msgRateLimit), [lit ''Hi''])"
proof -
  have k: "API_KEY failEnv = Some (lit ''key'')" "lit ''key'' \<noteq> []"
    "generateContent failEnv = (\<lambda>n t. Inl (ErrorObj (lit ''Rate limit exceeded'')))"
    "formatCategory failEnv = unicodeCf" "toLowerCase failEnv = asciiLower"
    by (simp_all add: failEnv_def sampleEnv_def lit_def)
  show ?thesis
    by (simp add: generateSpeech_def chunkText_Hi Let_def k sanitize_Hi lit_eq_Nil
        handleApiError_classify classify_rate_limit)
qed

theorem transport_failure_aborts_and_is_classified_witness:
  "API_KEY failEnv = Some (lit ''key'') \<and> lit ''key'' \<noteq> [] \<and>
   0 < length (snd (generateSpeech failEnv (lit ''Hi''))) \<and>
   generateContent failEnv 0 (snd (generateSpeech failEnv (lit ''Hi'')) ! 0) =
     Inl (ErrorObj (lit ''Rate limit exceeded'')) \<and>
   fst (generateSpeech failEnv (lit ''Hi'')) =
     Inl (handleApiError (toLowerCase failEnv) (ErrorObj (lit ''Rate limit exceeded''))) \<and>
   handleApiError asciiLower (ErrorObj (lit ''Rate limit exceeded'')) = ErrorObj msgRateLimit"
proof -
  have a: "API_KEY failEnv = Some (lit ''key'')" "lit ''key'' \<noteq> []"
    by (simp_all add: failEnv_def sampleEnv_def lit_def)
  have b: "0 < length (snd (generateSpeech failEnv (lit ''Hi'')))"
    by (simp add: generateSpeech_failEnv)
  have c: "generateContent failEnv 0 (snd (generateSpeech failEnv (lit ''Hi'')) ! 0) =
     Inl (ErrorObj (lit ''Rate limit exceeded''))"
    by (simp add: failEnv_def sampleEnv_def)
  note t = transport_failure_aborts_and_is_classified
    [of failEnv "lit ''key''" 0 "lit ''Hi''" "ErrorObj (lit ''Rate limit exceeded'')"
       asciiLower "lit ''Rate limit exceeded''"]
  from t a b c have 1: "fst (generateSpeech failEnv (lit ''Hi'')) =
     Inl (handleApiError (toLowerCase failEnv) (ErrorObj (lit ''Rate limit exceeded'')))"
    by blast
  from t have "handleApiError asciiLower (ErrorObj (lit ''Rate limit exceeded'')) =
      ErrorObj (categoryMessage (classify (asciiLower (lit ''Rate limit exceeded''))))"
    by blast
  then have 2: "handleApiError asciiLower (ErrorObj (lit ''Rate limit exceeded'')) = ErrorObj msgRateLimit"
    by (simp add: classify_rate_limit)
  from a b c 1 2 show ?thesis by (simp only: simp_thms)
qed

lemma generateSpeech_noKeyEnv:
  "generateSpeech noKeyEnv (lit ''Hi'') = (Inl (ErrorObj msgUnexpected), [])"
  by (simp add: generateSpeech_def noKeyEnv_def sampleEnv_def
      handleApiError_missing_key [of asciiLower, OF asciiLower_api_key_message])

lemma generateSpeech_badAudioEnv:
  "generateSpeech badAudioEnv (lit ''Hi'') = (Inr [lit ''AAAA''], [lit ''Hi''])"
proof -
  have k: "API_KEY badAudioEnv = Some (lit ''key'')" "lit ''key'' \<noteq> []"
    "generateContent badAudioEnv = (\<lambda>n t. Inr (Some (lit ''AAAA'')))"
    "formatCategory badAudioEnv = unicodeCf" "lit ''AAAA'' \<noteq> []"
    by (simp_all add: badAudioEnv_def sampleEnv_def lit_def)
  show ?thesis
    by (simp add: generateSpeech_def chunkText_Hi Let_def k sanitize_Hi lit_eq_Nil)
qed

lemma decodeAudio_sample: "decodeAudio sampleEnv = (\<lambda>p. Inr (length p))"
  by (simp add: sampleEnv_def)

lemma run_sample_quiet:
  "liveNodes (run sampleEnv
     [CallSpeak (lit ''Hi'') sampleOptions, CallStop, Settle (lit ''Hi'') sampleOptions]
     initial) = []"
  by (simp add: run_def speak_begin_def speak_resume_def Let_def trim_Hi lit_eq_Nil
      generateSpeech_sample decodeAudio_sample prologue_def stop_def initial_def
      playNextInQueue_def callOnEnd_def sampleOptions_def)

theorem speak_onEnd_exactly_once_witness:
  "liveNodes (initial :: nat tts) = [] \<and> onEnd sampleOptions = Some 7 \<and>
   onEndCalls (playToEnd (fst (speak sampleEnv (lit ''  '') sampleOptions initial))) = [7] \<and>
   snd (speak sampleEnv (lit ''  '') sampleOptions initial) = [] \<and>
   onEndCalls (playToEnd (fst (speak noKeyEnv (lit ''Hi'') sampleOptions initial))) = [7] \<and>
   error (fst (speak noKeyEnv (lit ''Hi'') sampleOptions initial)) = Some msgUnexpected \<and>
   onEndCalls (playToEnd (fst (speak badAudioEnv (lit ''Hi'') sampleOptions initial))) = [7] \<and>
   error (fst (speak badAudioEnv (lit ''Hi'') sampleOptions initial)) = Some msgSpeakUnknown \<and>
   onEndCalls (playToEnd (fst (speak sampleEnv (lit ''Hi'') sampleOptions initial))) = [7] \<and>
   startedBuffers (playToEnd (fst (speak sampleEnv (lit ''Hi'') sampleOptions initial))) = [4] \<and>
   count_list (onEndCalls (playToEnd (fst (speak sampleEnv (lit ''Hi'') sampleOptions samplePlaying)))) 7
     = 2 \<and>
   count_list (onEndCalls (run sampleEnv
     [CallSpeak (lit ''Hi'') sampleOptions, CallStop, Settle (lit ''Hi'') sampleOptions]
     initial)) 7 = 1"
proof -
  have l: "liveNodes (initial :: nat tts) = []" by (simp add: initial_def)
  have o: "onEnd sampleOptions = Some 7" by (simp add: sampleOptions_def)
  have i: "onEndCalls (initial :: nat tts) = []" "startedBuffers (initial :: nat tts) = []"
    by (simp_all add: initial_def)
  have hi: "trim (lit ''Hi'') \<noteq> []" by (simp add: trim_Hi lit_eq_Nil)
  note blank = speak_onEnd_exactly_once [of sampleOptions 7 sampleEnv "lit ''  ''" initial]
  from blank l o have
    "onEndCalls (playToEnd (fst (speak sampleEnv (lit ''  '') sampleOptions initial))) =
       onEndCalls (initial :: nat tts) @ [7]"
    by blast
  then have b1:
    "onEndCalls (playToEnd (fst (speak sampleEnv (lit ''  '') sampleOptions initial))) = [7]"
    by (simp add: i)
  from blank l o trim_spaces have b2: "snd (speak sampleEnv (lit ''  '') sampleOptions initial) = []"
    by blast
  have g1: "fst (generateSpeech noKeyEnv (lit ''Hi'')) = Inl (ErrorObj msgUnexpected)"
    by (simp add: generateSpeech_noKeyEnv)
  note fail = speak_onEnd_exactly_once
    [of sampleOptions 7 noKeyEnv "lit ''Hi''" initial "[]" "ErrorObj msgUnexpected"]
  from fail l o have
    "onEndCalls (playToEnd (fst (speak noKeyEnv (lit ''Hi'') sampleOptions initial))) =
       onEndCalls (initial :: nat tts) @ [7]"
    by blast
  then have f1:
    "onEndCalls (playToEnd (fst (speak noKeyEnv (lit ''Hi'') sampleOptions initial))) = [7]"
    by (simp add: i)
  from fail l o hi g1 have
    "error (fst (speak noKeyEnv (lit ''Hi'') sampleOptions initial)) =
       Some (thrownMessage (ErrorObj msgUnexpected))"
    by blast
  then have f2: "error (fst (speak noKeyEnv (lit ''Hi'') sampleOptions initial)) = Some msgUnexpected"
    by (simp add: thrownMessage_def)
  have g2: "fst (generateSpeech badAudioEnv (lit ''Hi'')) = Inr [lit ''AAAA'']"
    by (simp add: generateSpeech_badAudioEnv)
  have d2: "decodeAll (decodeAudio badAudioEnv) [lit ''AAAA''] = Inl OtherValue"
    by (simp add: badAudioEnv_def sampleEnv_def)
  note bad = speak_onEnd_exactly_once
    [of sampleOptions 7 badAudioEnv "lit ''Hi''" initial "[]" OtherValue "[lit ''AAAA'']"]
  from bad l o have
    "onEndCalls (playToEnd (fst (speak badAudioEnv (lit ''Hi'') sampleOptions initial))) =
       onEndCalls (initial :: nat tts) @ [7]"
    by blast
  then have d1:
    "onEndCalls (playToEnd (fst (speak badAudioEnv (lit ''Hi'') sampleOptions initial))) = [7]"
    by (simp add: i)
  from bad l o hi g2 d2 have
    "error (fst (speak badAudioEnv (lit ''Hi'') sampleOptions initial)) =
       Some (thrownMessage OtherValue)"
    by blast
  then have d3: "error (fst (speak badAudioEnv (lit ''Hi'') sampleOptions initial)) = Some msgSpeakUnknown"
    by (simp add: thrownMessage_def)
  have g3: "fst (generateSpeech sampleEnv (lit ''Hi'')) = Inr [lit ''AAAA'']"
    by (simp add: generateSpeech_sample)
  have d4: "decodeAll (decodeAudio sampleEnv) [lit ''AAAA''] = Inr [4]"
    by (simp add: sampleEnv_def lit_def)
  note ok = speak_onEnd_exactly_once
    [of sampleOptions 7 sampleEnv "lit ''Hi''" initial "[]" OtherValue "[lit ''AAAA'']" "[4]"]
  from ok l o have
    "onEndCalls (playToEnd (fst (speak sampleEnv (lit ''Hi'') sampleOptions initial))) =
       onEndCalls (initial :: nat tts) @ [7]"
    by blast
  then have p1:
    "onEndCalls (playToEnd (fst (speak sampleEnv (lit ''Hi'') sampleOptions initial))) = [7]"
    by (simp add: i)
  from ok l o hi g3 d4 have
    "startedBuffers (playToEnd (fst (speak sampleEnv (lit ''Hi'') sampleOptions initial))) =
       startedBuffers (initial :: nat tts) @ [4]"
    by blast
  then have p2:
    "startedBuffers (playToEnd (fst (speak sampleEnv (lit ''Hi'') sampleOptions initial))) = [4]"
    by (simp add: i)
  note busy = speak_onEnd_exactly_once [of sampleOptions 7 sampleEnv "lit ''Hi''" samplePlaying]
  have h: "count_list (onEndCalls samplePlaying) 7 + holding 7 samplePlaying + 1 = 2"
    by (simp add: samplePlaying_def initial_def holding_def sampleNode_def)
  from busy o have
    "count_list (onEndCalls (playToEnd (fst (speak sampleEnv (lit ''Hi'') sampleOptions samplePlaying)))) 7
       = count_list (onEndCalls samplePlaying) 7 + holding 7 samplePlaying + 1"
    by blast
  then have q1:
    "count_list (onEndCalls (playToEnd (fst (speak sampleEnv (lit ''Hi'') sampleOptions samplePlaying)))) 7
       = 2"
    by (simp only: h)
  note tr = speak_onEnd_exactly_once
    [of sampleOptions 7 sampleEnv "lit ''Hi''" initial
      "[CallSpeak (lit ''Hi'') sampleOptions, CallStop, Settle (lit ''Hi'') sampleOptions]"]
  have c: "sum_list (map (completes 7)
      [CallSpeak (lit ''Hi'') sampleOptions, CallStop, Settle (lit ''Hi'') sampleOptions]) = 1"
    by (simp add: trim_Hi lit_eq_Nil sampleOptions_def)
  have h0: "holding 7 (initial :: nat tts) = 0" "count_list (onEndCalls (initial :: nat tts)) 7 = 0"
    by (simp_all add: holding_def initial_def)
  have hq: "holding 7 (run sampleEnv
      [CallSpeak (lit ''Hi'') sampleOptions, CallStop, Settle (lit ''Hi'') sampleOptions]
      initial) = 0"
    by (simp add: holding_def run_sample_quiet)
  from tr have
    "count_list (onEndCalls (run sampleEnv
       [CallSpeak (lit ''Hi'') sampleOptions, CallStop, Settle (lit ''Hi'') sampleOptions] initial)) 7 +
     holding 7 (run sampleEnv
       [CallSpeak (lit ''Hi'') sampleOptions, CallStop, Settle (lit ''Hi'') sampleOptions] initial) =
     count_list (onEndCalls (initial :: nat tts)) 7 + holding 7 (initial :: nat tts) +
     sum_list (map (completes 7)
       [CallSpeak (lit ''Hi'') sampleOptions, CallStop, Settle (lit ''Hi'') sampleOptions])"
    by blast
  then have r1: "count_list (onEndCalls (run sampleEnv
      [CallSpeak (lit ''Hi'') sampleOptions, CallStop, Settle (lit ''Hi'') sampleOptions]
      initial)) 7 = 1"
    by (simp only: c h0 hq)
  from l o b1 b2 f1 f2 d1 d3 p1 p2 q1 r1 show ?thesis by (simp only: simp_thms)
qed


end
